theory Spec2Isabelle
  imports Main "HOL-Library.Word"
begin

section \<open>JavaScript strings\<close>

text \<open>
  A JavaScript string is a sequence of 16-bit code units. The component only ever
  compares code units with \<open><\<close> (0x3C) and \<open>>\<close> (0x3E) and strips white space, so
  a string is a list of 16-bit words; \<open>js\<close> embeds an ASCII literal.
\<close>

type_synonym jschar = "16 word"
type_synonym jsstring = "jschar list"

definition js :: "string \<Rightarrow> jsstring" where
  "js s = map (\<lambda>c. of_nat (of_char c)) s"

abbreviation LT :: jschar where "LT \<equiv> 0x3C"
abbreviation GT :: jschar where "GT \<equiv> 0x3E"

text \<open>
  \<open>String.prototype.trim\<close> removes the ECMAScript WhiteSpace and LineTerminator code
  units from both ends.
\<close>

definition isWhiteSpace :: "jschar \<Rightarrow> bool" where
  "isWhiteSpace c \<longleftrightarrow>
     c \<in> {0x09, 0x0A, 0x0B, 0x0C, 0x0D, 0x20, 0xA0, 0x1680,
          0x2000, 0x2001, 0x2002, 0x2003, 0x2004, 0x2005, 0x2006, 0x2007,
          0x2008, 0x2009, 0x200A, 0x2028, 0x2029, 0x202F, 0x205F, 0x3000, 0xFEFF}"

definition trim :: "jsstring \<Rightarrow> jsstring" where
  "trim s = rev (dropWhile isWhiteSpace (rev (dropWhile isWhiteSpace s)))"

section \<open>Conversation events\<close>

text \<open>
  One parsed frame of the stream. The field \<open>msgText\<close> is the source's \<open>text\<close>; \<open>audio\<close>
  is absent or a URL. A frame whose JSON does not parse is \<open>Malformed\<close>; the payload
  \<open>{event: "end"}\<close> is \<open>EndSignal\<close>.
\<close>

record message =
  speaker :: jsstring
  msgText :: jsstring
  audio :: "jsstring option"

datatype frame = Malformed | EndSignal | Event message

text \<open>
  The selected patient is an object or \<open>null\<close>; of the object only the name matters
  here.
\<close>

record patient =
  patientName :: jsstring

text \<open>JavaScript truthiness of an optional string: present and not empty.\<close>

definition truthy :: "jsstring option \<Rightarrow> bool" where
  "truthy v = (case v of None \<Rightarrow> False | Some u \<Rightarrow> u \<noteq> [])"

definition audioSrc :: "message \<Rightarrow> jsstring" where
  "audioSrc m = (case audio m of None \<Rightarrow> [] | Some u \<Rightarrow> u)"

section \<open>Diff of two report revisions\<close>

text \<open>
  A change object of the \<open>diff\<close> package: the source reads its fields \<open>value\<close>, \<open>added\<close>
  and \<open>removed\<close>; \<open>pvalue\<close> is the field \<open>value\<close>.
\<close>

record 'a change =
  pvalue :: 'a
  added :: bool
  removed :: bool

text \<open>
  \<open>html.match(/(<[^>]+>|[^<]+)/g) || []\<close>: scanning from the left, a \<open><\<close> followed by
  at least one code unit other than \<open>>\<close> and then a \<open>>\<close> is a tag token; a maximal
  run of code units other than \<open><\<close> is a text token; a \<open><\<close> that starts neither is
  skipped by the scan.
\<close>

function tokenizeHTML :: "jsstring \<Rightarrow> jsstring list" where
  "tokenizeHTML [] = []"
| "tokenizeHTML (c # cs) =
     (if c = LT then
        (let body = takeWhile (\<lambda>x. x \<noteq> GT) cs;
             rest = dropWhile (\<lambda>x. x \<noteq> GT) cs
         in if body \<noteq> [] \<and> rest \<noteq> []
            then (c # body @ [GT]) # tokenizeHTML (tl rest)
            else tokenizeHTML cs)
      else takeWhile (\<lambda>x. x \<noteq> LT) (c # cs)
             # tokenizeHTML (dropWhile (\<lambda>x. x \<noteq> LT) (c # cs)))"
  by pat_completeness auto
termination
proof (relation "measure length")
  show "wf (measure length)" by simp
next
  fix c :: jschar and cs x xa
  assume "xa = dropWhile (\<lambda>x. x \<noteq> GT) cs"
  then have "length xa \<le> length cs"
    by (simp add: length_dropWhile_le)
  then have "length (tl xa) \<le> length cs"
    by simp
  then show "(tl xa, c # cs) \<in> measure length" by simp
next
  fix c :: jschar and cs :: jsstring
  show "(cs, c # cs) \<in> measure length" by simp
next
  fix c :: jschar and cs :: jsstring
  assume "c \<noteq> LT"
  then show "(dropWhile (\<lambda>x. x \<noteq> LT) (c # cs), c # cs) \<in> measure length"
    by (simp add: length_dropWhile_le less_Suc_eq_le)
qed

text \<open>\<open>/^<[^>]+>$/.test(s)\<close>: the whole string is one tag.\<close>

definition isTag :: "jsstring \<Rightarrow> bool" where
  "isTag s =
     (case s of
        [] \<Rightarrow> False
      | c # cs \<Rightarrow> c = LT \<and> takeWhile (\<lambda>x. x \<noteq> GT) cs \<noteq> []
                  \<and> dropWhile (\<lambda>x. x \<noteq> GT) cs = [GT])"

definition spanAdd :: "jsstring \<Rightarrow> jsstring" where
  "spanAdd v = js ''<span class=\"add\">'' @ v @ js ''</span>''"

definition spanRemove :: "jsstring \<Rightarrow> jsstring" where
  "spanRemove v = js ''<span class=\"remove\">'' @ v @ js ''</span>''"

definition innerResult :: "jsstring change list \<Rightarrow> jsstring" where
  "innerResult innerDiff =
     concat (map (\<lambda>part. if added part then spanAdd (pvalue part)
                          else if removed part then spanRemove (pvalue part)
                          else pvalue part) innerDiff)"

definition wrapPart :: "jsstring list change \<Rightarrow> jsstring" where
  "wrapPart p =
     (if added p then spanAdd (concat (pvalue p))
      else if removed p then spanRemove (concat (pvalue p))
      else concat (pvalue p))"

text \<open>
  The \<open>for\<close> loop of \<open>getDiffReport\<close> over \<open>diffParts\<close>: a removed part directly followed
  by an added part, neither of them a bare tag, is replaced by the word diff of the two
  texts and both parts are consumed; any other part is wrapped on its own.
\<close>

fun diffLoop ::
  "(jsstring \<Rightarrow> jsstring \<Rightarrow> jsstring change list) \<Rightarrow> jsstring list change list \<Rightarrow> jsstring"
where
  "diffLoop diffWords [] = []"
| "diffLoop diffWords [p] = wrapPart p"
| "diffLoop diffWords (p # q # ps) =
     (if removed p \<and> added q
         \<and> \<not> isTag (concat (pvalue p)) \<and> \<not> isTag (concat (pvalue q))
      then innerResult (diffWords (concat (pvalue p)) (concat (pvalue q)))
             @ diffLoop diffWords ps
      else wrapPart p @ diffLoop diffWords (q # ps))"

text \<open>
  \<open>getDiffReport\<close> reads \<open>prevReport\<close> and \<open>currentReport\<close> from the component state;
  here they are arguments, as are the two functions imported from the \<open>diff\<close> package.
\<close>

definition getDiffReport ::
  "(jsstring list \<Rightarrow> jsstring list \<Rightarrow> jsstring list change list)
     \<Rightarrow> (jsstring \<Rightarrow> jsstring \<Rightarrow> jsstring change list)
     \<Rightarrow> jsstring \<Rightarrow> jsstring \<Rightarrow> jsstring"
where
  "getDiffReport diffArrays diffWords prevReport currentReport =
     (let tokensPrev = tokenizeHTML prevReport;
          tokensCurrent = tokenizeHTML currentReport;
          diffParts = diffArrays tokensPrev tokensCurrent
      in diffLoop diffWords diffParts)"

subsection \<open>Report revision tracker\<close>

record revision =
  prevReport :: jsstring
  currentReport :: jsstring

text \<open>
  The effect ``Update report on new messages''. The markdown renderer \<open>marked\<close> is an
  imported library function and stays a parameter.
\<close>

definition renderReport :: "(jsstring \<Rightarrow> jsstring) \<Rightarrow> jsstring \<Rightarrow> jsstring" where
  "renderReport marked latestReportMessageText = marked (trim latestReportMessageText)"

definition reportMessages :: "message list \<Rightarrow> message list" where
  "reportMessages msgs = filter (\<lambda>m. speaker m = js ''report'') msgs"

definition reportEffect ::
  "(jsstring \<Rightarrow> jsstring) \<Rightarrow> message list \<Rightarrow> revision \<Rightarrow> revision"
where
  "reportEffect marked msgs r =
     (if length (reportMessages msgs) > 0
      then
        (let latestReportMessageText =
               msgText (reportMessages msgs ! (length (reportMessages msgs) - 1));
             newReport = renderReport marked latestReportMessageText
         in if newReport \<noteq> currentReport r
            then r\<lparr>prevReport := currentReport r, currentReport := newReport\<rparr>
            else r)
      else r)"

text \<open>The report pane: \<open>prevReport ? getDiffReport() : currentReport\<close>.\<close>

definition reportPane ::
  "(jsstring list \<Rightarrow> jsstring list \<Rightarrow> jsstring list change list)
     \<Rightarrow> (jsstring \<Rightarrow> jsstring \<Rightarrow> jsstring change list)
     \<Rightarrow> revision \<Rightarrow> jsstring"
where
  "reportPane diffArrays diffWords r =
     (if prevReport r \<noteq> []
      then getDiffReport diffArrays diffWords (prevReport r) (currentReport r)
      else currentReport r)"

subsection \<open>What is assumed of the diff package\<close>

text \<open>
  On two equal token lists the package reports no added and no removed part, and the
  parts together are the tokens.
\<close>

definition identityDiff ::
  "(jsstring list \<Rightarrow> jsstring list \<Rightarrow> jsstring list change list) \<Rightarrow> jsstring list \<Rightarrow> bool"
where
  "identityDiff diffArrays ts \<longleftrightarrow>
     (\<forall>p \<in> set (diffArrays ts ts). \<not> added p \<and> \<not> removed p)
     \<and> concat (map pvalue (diffArrays ts ts)) = ts"

text \<open>
  The strings on which the tokenizer skips nothing: every \<open><\<close> met by the scan opens a
  tag with a non-empty body and a closing \<open>>\<close>.
\<close>

function wellTagged :: "jsstring \<Rightarrow> bool" where
  "wellTagged [] = True"
| "wellTagged (c # cs) =
     (if c = LT then
        (let body = takeWhile (\<lambda>x. x \<noteq> GT) cs;
             rest = dropWhile (\<lambda>x. x \<noteq> GT) cs
         in body \<noteq> [] \<and> rest \<noteq> [] \<and> wellTagged (tl rest))
      else wellTagged cs)"
  by pat_completeness auto
termination
proof (relation "measure length")
  show "wf (measure length)" by simp
next
  fix c :: jschar and cs x xa
  assume "xa = dropWhile (\<lambda>x. x \<noteq> GT) cs"
  then have "length xa \<le> length cs"
    by (simp add: length_dropWhile_le)
  then have "length (tl xa) \<le> length cs"
    by simp
  then show "(tl xa, c # cs) \<in> measure length" by simp
next
  fix c :: jschar and cs :: jsstring
  show "(cs, c # cs) \<in> measure length" by simp
qed

subsection \<open>A reference diff\<close>

text \<open>
  A small diff with the behaviour assumed of the package, used to instantiate the
  library parameters at concrete inputs: a shortest edit script, removals before
  insertions, grouped into runs; the word diff splits at white-space boundaries.
\<close>

datatype 'a edit = Keep 'a | Ins 'a | Del 'a

fun cost :: "'a edit list \<Rightarrow> nat" where
  "cost [] = 0"
| "cost (Keep x # es) = cost es"
| "cost (e # es) = Suc (cost es)"

fun editScript :: "'a list \<Rightarrow> 'a list \<Rightarrow> 'a edit list" where
  "editScript [] ys = map Ins ys"
| "editScript (x # xs) [] = map Del (x # xs)"
| "editScript (x # xs) (y # ys) =
     (if x = y then Keep x # editScript xs ys
      else (let d = Del x # editScript xs (y # ys);
                i = Ins y # editScript (x # xs) ys
            in if cost d \<le> cost i then d else i))"

fun single :: "'a edit \<Rightarrow> 'a list change" where
  "single (Keep x) = \<lparr>pvalue = [x], added = False, removed = False\<rparr>"
| "single (Ins x) = \<lparr>pvalue = [x], added = True, removed = False\<rparr>"
| "single (Del x) = \<lparr>pvalue = [x], added = False, removed = True\<rparr>"

fun runs :: "'a edit list \<Rightarrow> 'a list change list" where
  "runs [] = []"
| "runs (e # es) =
     (case runs es of
        [] \<Rightarrow> [single e]
      | r # rs \<Rightarrow>
          if added (single e) = added r \<and> removed (single e) = removed r
          then r\<lparr>pvalue := pvalue (single e) @ pvalue r\<rparr> # rs
          else single e # r # rs)"

definition diffArraysRef :: "'a list \<Rightarrow> 'a list \<Rightarrow> 'a list change list" where
  "diffArraysRef xs ys = runs (editScript xs ys)"

fun splitWords :: "jsstring \<Rightarrow> jsstring list" where
  "splitWords [] = []"
| "splitWords (c # cs) =
     (case splitWords cs of
        [] \<Rightarrow> [[c]]
      | w # ws \<Rightarrow>
          if isWhiteSpace c = isWhiteSpace (hd w) then (c # w) # ws else [c] # w # ws)"

definition diffWordsRef :: "jsstring \<Rightarrow> jsstring \<Rightarrow> jsstring change list" where
  "diffWordsRef a b =
     map (\<lambda>p. \<lparr>pvalue = concat (pvalue p), added = added p, removed = removed p\<rparr>)
       (diffArraysRef (splitWords a) (splitWords b))"

section \<open>The playback sequencer\<close>

subsection \<open>State\<close>

text \<open>
  The component state and refs of \<open>Interview\<close>, and the browser objects they point to:
  the \<open>EventSource\<close> objects created so far with their \<open>readyState\<close>, the \<open>Audio\<close>
  elements created so far, and the pending timers with their delay. A ref holds an index
  into the corresponding list. Timer handles are positive, so a stored handle is truthy.

  Of an \<open>Audio\<close> element the model keeps its \<open>src\<close>, whether it is playing, whether
  the promise returned by \<open>play()\<close> is still pending, and whether the browser has an
  \<open>error\<close> event queued for it: assigning the empty string to \<open>src\<close> starts the
  element's load algorithm, which fails on the empty source and fires \<open>error\<close>.

  \<open>cleanupRegistered\<close> says whether the last run of the stream effect returned its
  cleanup function (it returns early, without one, when no patient or condition is
  selected).
\<close>

datatype readyState = CONNECTING | OPEN | CLOSED

record audioElement =
  src :: jsstring
  playing :: bool
  playPending :: bool
  errorQueued :: bool

record state =
  messages :: "message list"
  isInterviewComplete :: bool
  isAudioEnabled :: bool
  waitTime :: nat
  messageQueue :: "message list"
  eventSourceRef :: "nat option"
  timeoutIdRef :: "nat option"
  currentPlayingAudio :: "nat option"
  isAudioEnabledRef :: bool
  waitTimeRef :: nat
  sources :: "readyState list"
  audios :: "audioElement list"
  timers :: "(nat \<times> nat) list"
  nextTimerId :: nat
  cleanupRegistered :: bool

definition initialState :: state where
  "initialState =
     \<lparr>messages = [], isInterviewComplete = False, isAudioEnabled = True,
      waitTime = 3000, messageQueue = [], eventSourceRef = None, timeoutIdRef = None,
      currentPlayingAudio = None, isAudioEnabledRef = True, waitTimeRef = 3000,
      sources = [], audios = [], timers = [], nextTimerId = 1,
      cleanupRegistered = False\<rparr>"

subsection \<open>Browser operations\<close>

definition clearTimeout :: "nat \<Rightarrow> state \<Rightarrow> state" where
  "clearTimeout t s = s\<lparr>timers := filter (\<lambda>p. fst p \<noteq> t) (timers s)\<rparr>"

definition pause :: "nat \<Rightarrow> state \<Rightarrow> state" where
  "pause a s = s\<lparr>audios := (audios s)[a := (audios s ! a)\<lparr>playing := False\<rparr>]\<rparr>"

definition clearSrc :: "nat \<Rightarrow> state \<Rightarrow> state" where
  "clearSrc a s =
     s\<lparr>audios := (audios s)[a := (audios s ! a)\<lparr>src := [], errorQueued := True\<rparr>]\<rparr>"

definition closeSource :: "nat \<Rightarrow> state \<Rightarrow> state" where
  "closeSource i s = s\<lparr>sources := (sources s)[i := CLOSED]\<rparr>"

text \<open>An element whose \<open>error\<close> event is delivered is neither playing nor owed the event.\<close>

text \<open>An element whose \<open>play()\<close> promise is rejected is not playing.\<close>

definition reject :: "nat \<Rightarrow> state \<Rightarrow> state" where
  "reject a s =
     s\<lparr>audios := (audios s)[a := (audios s ! a)\<lparr>playing := False, playPending := False\<rparr>]\<rparr>"

definition resolve :: "nat \<Rightarrow> state \<Rightarrow> state" where
  "resolve a s = s\<lparr>audios := (audios s)[a := (audios s ! a)\<lparr>playPending := False\<rparr>]\<rparr>"

definition settle :: "nat \<Rightarrow> state \<Rightarrow> state" where
  "settle a s =
     s\<lparr>audios := (audios s)[a := (audios s ! a)\<lparr>playing := False, errorQueued := False\<rparr>]\<rparr>"

subsection \<open>processQueue and the handlers\<close>

text \<open>
  \<open>eventSourceRef.current && eventSourceRef.current.readyState === EventSource.CLOSED\<close>
\<close>

definition channelClosed :: "state \<Rightarrow> bool" where
  "channelClosed s =
     (case eventSourceRef s of None \<Rightarrow> False | Some i \<Rightarrow> sources s ! i = CLOSED)"

definition processQueue :: "state \<Rightarrow> state" where
  "processQueue s =
     (let s1 = (case timeoutIdRef s of Some t \<Rightarrow> clearTimeout t s | None \<Rightarrow> s)
      in case messageQueue s1 of
           [] \<Rightarrow> s1\<lparr>timeoutIdRef := None, isInterviewComplete := channelClosed s1\<rparr>
         | nextMessage # rest \<Rightarrow>
             (let s2 = s1\<lparr>messageQueue := rest, messages := messages s1 @ [nextMessage]\<rparr>
              in if truthy (audio nextMessage) \<and> isAudioEnabledRef s2
                 then
                   (let s3 = (case currentPlayingAudio s2 of
                                Some a \<Rightarrow> clearSrc a (pause a s2)
                              | None \<Rightarrow> s2)
                    in s3\<lparr>audios := audios s3
                                @ [\<lparr>src = audioSrc nextMessage, playing = True,
                                    playPending = True, errorQueued = False\<rparr>],
                          currentPlayingAudio := Some (length (audios s3))\<rparr>)
                 else
                   s2\<lparr>timers := timers s2 @ [(nextTimerId s2, waitTimeRef s2)],
                      timeoutIdRef := Some (nextTimerId s2),
                      nextTimerId := Suc (nextTimerId s2)\<rparr>))"

text \<open>The three callbacks attached to every audio element that is started.\<close>

definition audio_onended :: "state \<Rightarrow> state" where
  "audio_onended s = processQueue (s\<lparr>currentPlayingAudio := None\<rparr>)"

definition audio_onerror :: "state \<Rightarrow> state" where
  "audio_onerror s = processQueue (s\<lparr>currentPlayingAudio := None\<rparr>)"

definition play_catch :: "state \<Rightarrow> state" where
  "play_catch s = processQueue (s\<lparr>currentPlayingAudio := None\<rparr>)"

text \<open>
  \<open>eventSource.onmessage\<close> and \<open>eventSource.onerror\<close> of the source with index \<open>i\<close>
  (the closure's \<open>eventSource\<close>, not the ref).
\<close>

definition eventSource_onmessage :: "nat \<Rightarrow> frame \<Rightarrow> state \<Rightarrow> state" where
  "eventSource_onmessage i f s =
     (case f of
        Malformed \<Rightarrow> s
      | EndSignal \<Rightarrow> processQueue (closeSource i s)
      | Event data \<Rightarrow>
          (let s1 = s\<lparr>messageQueue := messageQueue s @ [data]\<rparr>
           in if currentPlayingAudio s1 = None \<and> timeoutIdRef s1 = None
              then processQueue s1 else s1))"

definition eventSource_onerror :: "nat \<Rightarrow> state \<Rightarrow> state" where
  "eventSource_onerror i s = closeSource i s"

text \<open>The stream effect (its body and its cleanup) for a patient and a condition.\<close>

definition streamEffect :: "patient option \<Rightarrow> jsstring option \<Rightarrow> state \<Rightarrow> state" where
  "streamEffect selectedPatient selectedCondition s =
     (if selectedPatient = None \<or> \<not> truthy selectedCondition then s
      else
        (let s1 = s\<lparr>messages := [], isInterviewComplete := False, messageQueue := []\<rparr>;
             s2 = (case currentPlayingAudio s1 of
                     Some a \<Rightarrow> (pause a s1)\<lparr>currentPlayingAudio := None\<rparr>
                   | None \<Rightarrow> s1)
         in s2\<lparr>sources := sources s2 @ [CONNECTING],
               eventSourceRef := Some (length (sources s2)),
               cleanupRegistered := True\<rparr>))"

definition streamCleanup :: "state \<Rightarrow> state" where
  "streamCleanup s =
     (let s1 = (case eventSourceRef s of
                  Some i \<Rightarrow> (closeSource i s)\<lparr>eventSourceRef := None\<rparr>
                | None \<Rightarrow> s);
          s2 = (case timeoutIdRef s1 of
                  Some t \<Rightarrow> (clearTimeout t s1)\<lparr>timeoutIdRef := None\<rparr>
                | None \<Rightarrow> s1)
      in case currentPlayingAudio s2 of
           Some a \<Rightarrow> (pause a s2)\<lparr>currentPlayingAudio := None\<rparr>
         | None \<Rightarrow> s2)"

text \<open>
  What React does when the effect is torn down: it calls the cleanup function if the last
  run of the effect returned one.
\<close>

definition runCleanup :: "state \<Rightarrow> state" where
  "runCleanup s =
     (if cleanupRegistered s then (streamCleanup s)\<lparr>cleanupRegistered := False\<rparr> else s)"

definition handleToggleWaitTime :: "state \<Rightarrow> state" where
  "handleToggleWaitTime s = s\<lparr>waitTime := (if waitTime s = 1000 then 3000 else 1000)\<rparr>"

definition handleToggleAudio :: "state \<Rightarrow> state" where
  "handleToggleAudio s =
     (let isNowEnabled = \<not> isAudioEnabled s;
          s1 = (case currentPlayingAudio s of
                  Some a \<Rightarrow>
                    if \<not> isNowEnabled
                    then (clearSrc a (pause a s))\<lparr>currentPlayingAudio := None\<rparr>
                    else s
                | None \<Rightarrow> s)
      in s1\<lparr>isAudioEnabled := isNowEnabled\<rparr>)"

text \<open>The two effects that copy a state variable into its ref.\<close>

definition audioEnabledEffect :: "state \<Rightarrow> state" where
  "audioEnabledEffect s = s\<lparr>isAudioEnabledRef := isAudioEnabled s\<rparr>"

definition waitTimeEffect :: "state \<Rightarrow> state" where
  "waitTimeEffect s = s\<lparr>waitTimeRef := waitTime s\<rparr>"

text \<open>Mounting runs the effects in the order of their declaration.\<close>

definition mount :: "patient option \<Rightarrow> jsstring option \<Rightarrow> state" where
  "mount selectedPatient selectedCondition =
     processQueue (streamEffect selectedPatient selectedCondition
       (waitTimeEffect (audioEnabledEffect initialState)))"

subsection \<open>Signals\<close>

text \<open>
  What the browser and the user can do to a mounted component, and when. A frame
  arrives on an open source; a timer fires while it is pending. The promise of \<open>play()\<close>
  is resolved when playback starts, and rejected when playback is refused, when the
  element is paused before it started, or when its resource fails to load; \<open>ended\<close>
  comes from an element that has started and is playing, \<open>error\<close> from one that is
  playing or has the event queued. A resource that fails to load makes the browser
  fire \<open>error\<close> and also reject the pending promise, so both callbacks of that element
  run. The speed toggle is rendered only while audio is disabled. Unmounting and a new
  selection tear the stream effect down; a new selection then runs its body again.
  Each signal first does the browser's part and then runs the handler of the source.
\<close>

datatype signal =
    Opened nat
  | Frame nat frame
  | TransportError nat
  | TimerFired nat
  | PlayResolved nat
  | AudioEnded nat
  | AudioError nat
  | PlayRejected nat
  | ToggleAudio
  | ToggleWaitTime
  | Reselect "patient option" "jsstring option"
  | Unmount

fun enabled :: "signal \<Rightarrow> state \<Rightarrow> bool" where
  "enabled (Opened i) s \<longleftrightarrow> i < length (sources s) \<and> sources s ! i = CONNECTING"
| "enabled (Frame i f) s \<longleftrightarrow> i < length (sources s) \<and> sources s ! i = OPEN"
| "enabled (TransportError i) s \<longleftrightarrow> i < length (sources s) \<and> sources s ! i \<noteq> CLOSED"
| "enabled (TimerFired t) s \<longleftrightarrow> t \<in> fst ` set (timers s)"
| "enabled (PlayResolved a) s \<longleftrightarrow>
     a < length (audios s) \<and> playing (audios s ! a) \<and> playPending (audios s ! a)"
| "enabled (AudioEnded a) s \<longleftrightarrow>
     a < length (audios s) \<and> playing (audios s ! a) \<and> \<not> playPending (audios s ! a)"
| "enabled (AudioError a) s \<longleftrightarrow>
     a < length (audios s) \<and> (playing (audios s ! a) \<or> errorQueued (audios s ! a))"
| "enabled (PlayRejected a) s \<longleftrightarrow> a < length (audios s) \<and> playPending (audios s ! a)"
| "enabled ToggleAudio s \<longleftrightarrow> True"
| "enabled ToggleWaitTime s \<longleftrightarrow> \<not> isAudioEnabled s"
| "enabled (Reselect p c) s \<longleftrightarrow> True"
| "enabled Unmount s \<longleftrightarrow> True"

fun step :: "signal \<Rightarrow> state \<Rightarrow> state" where
  "step (Opened i) s = s\<lparr>sources := (sources s)[i := OPEN]\<rparr>"
| "step (Frame i f) s = eventSource_onmessage i f s"
| "step (TransportError i) s = eventSource_onerror i s"
| "step (TimerFired t) s = processQueue (clearTimeout t s)"
| "step (PlayResolved a) s = resolve a s"
| "step (AudioEnded a) s = audio_onended (pause a s)"
| "step (AudioError a) s = audio_onerror (settle a s)"
| "step (PlayRejected a) s = play_catch (reject a s)"
| "step ToggleAudio s = audioEnabledEffect (handleToggleAudio s)"
| "step ToggleWaitTime s = processQueue (waitTimeEffect (handleToggleWaitTime s))"
| "step (Reselect p c) s = streamEffect p c (runCleanup s)"
| "step Unmount s = runCleanup s"

fun run :: "signal list \<Rightarrow> state \<Rightarrow> state" where
  "run [] s = s"
| "run (g # gs) s = run gs (step g s)"

fun feasible :: "signal list \<Rightarrow> state \<Rightarrow> bool" where
  "feasible [] s \<longleftrightarrow> True"
| "feasible (g # gs) s \<longleftrightarrow> enabled g s \<and> feasible gs (step g s)"

text \<open>The conversation events a trace delivers, in order.\<close>

fun eventOf :: "signal \<Rightarrow> message list" where
  "eventOf (Frame i (Event m)) = [m]"
| "eventOf g = []"

definition delivered :: "signal list \<Rightarrow> message list" where
  "delivered tr = concat (map eventOf tr)"

fun isReselect :: "signal \<Rightarrow> bool" where
  "isReselect (Reselect p c) = True"
| "isReselect g = False"



definition playingCount :: "state \<Rightarrow> nat" where
  "playingCount s = length (filter playing (audios s))"

subsection \<open>Invariants of the reachable states\<close>

definition sourcesTracked :: "state \<Rightarrow> bool" where
  "sourcesTracked s \<longleftrightarrow>
     (\<forall>i. eventSourceRef s = Some i \<longrightarrow> i < length (sources s))
     \<and> (\<forall>i < length (sources s). eventSourceRef s \<noteq> Some i \<longrightarrow> sources s ! i = CLOSED)
     \<and> (\<not> cleanupRegistered s \<longrightarrow> eventSourceRef s = None)"

definition timersTracked :: "state \<Rightarrow> bool" where
  "timersTracked s \<longleftrightarrow> (\<forall>p \<in> set (timers s). timeoutIdRef s = Some (fst p))"

definition audioTracked :: "state \<Rightarrow> bool" where
  "audioTracked s \<longleftrightarrow> (\<forall>a. currentPlayingAudio s = Some a \<longrightarrow> a < length (audios s))"

definition completeOnlyDrained :: "state \<Rightarrow> bool" where
  "completeOnlyDrained s \<longleftrightarrow>
     (isInterviewComplete s \<longrightarrow>
        messageQueue s = [] \<and> (\<forall>i < length (sources s). sources s ! i = CLOSED))"

text \<open>Every playing element is the one the sequencer tracks.\<close>

definition playingTracked :: "state \<Rightarrow> bool" where
  "playingTracked s \<longleftrightarrow>
     (\<forall>a < length (audios s). playing (audios s ! a) \<longrightarrow> currentPlayingAudio s = Some a)"

definition reachableInv :: "state \<Rightarrow> bool" where
  "reachableInv s \<longleftrightarrow>
     sourcesTracked s \<and> timersTracked s \<and> audioTracked s \<and> completeOnlyDrained s"

text \<open>
  Traces in which every \<open>error\<close> event and every rejected \<open>play()\<close> comes from an
  element that is playing, none from an element that was stopped before.
\<close>

fun fromPlaying :: "signal \<Rightarrow> state \<Rightarrow> bool" where
  "fromPlaying (AudioError a) s \<longleftrightarrow> playing (audios s ! a)"
| "fromPlaying (PlayRejected a) s \<longleftrightarrow> playing (audios s ! a)"
| "fromPlaying g s \<longleftrightarrow> True"

fun errorsFromPlaying :: "signal list \<Rightarrow> state \<Rightarrow> bool" where
  "errorsFromPlaying [] s \<longleftrightarrow> True"
| "errorsFromPlaying (g # gs) s \<longleftrightarrow> fromPlaying g s \<and> errorsFromPlaying gs (step g s)"

subsection \<open>Concrete sessions\<close>

definition mkMessage :: "string \<Rightarrow> string \<Rightarrow> string \<Rightarrow> message" where
  "mkMessage sp tx au =
     \<lparr>speaker = js sp, msgText = js tx,
      audio = (if au = [] then None else Some (js au))\<rparr>"

text \<open>A stand-in for the markdown renderer at concrete inputs: one paragraph.\<close>

definition asParagraph :: "jsstring \<Rightarrow> jsstring" where
  "asParagraph t = js ''<p>'' @ t @ js ''</p>''"

definition patientJordan :: patient where
  "patientJordan = \<lparr>patientName = js ''Jordan''\<rparr>"


definition jordan :: state where
  "jordan = mount (Some patientJordan) (Some (js ''flu''))"


definition hello :: message where
  "hello = mkMessage ''interviewer'' ''Hello'' []"

definition report1 :: message where
  "report1 = mkMessage ''report'' ''# R1'' []"

definition hi :: message where
  "hi = mkMessage ''patient'' ''Hi'' []"

definition report2 :: message where
  "report2 = mkMessage ''report'' ''# R2'' []"

definition question :: message where
  "question = mkMessage ''interviewer'' ''How are you?'' ''data:audio/wav;1''"

definition answer :: message where
  "answer = mkMessage ''patient'' ''Not well.'' ''data:audio/wav;2''"

definition followUp :: message where
  "followUp = mkMessage ''interviewer'' ''Since when?'' ''data:audio/wav;3''"

text \<open>The first report again, with a leading blank and a trailing line feed.\<close>

definition report1Padded :: message where
  "report1Padded = report1\<lparr>msgText := [0x20] @ msgText report1 @ [0x0A]\<rparr>"

text \<open>
  Audio switched off, the fast interval chosen, four events and the end signal; the
  timers then fire one after the other.
\<close>

definition scenario :: "signal list" where
  "scenario =
     [Opened 0, ToggleAudio, ToggleWaitTime,
      Frame 0 (Event hello), Frame 0 (Event report1), Frame 0 (Event hi),
      Frame 0 (Event report2), Frame 0 EndSignal,
      TimerFired 2, TimerFired 3, TimerFired 4]"

text \<open>
  Three events with audio arrive while the first clip plays, then the end signal; the
  browser then delivers the \<open>error\<close> event of the first element, whose \<open>src\<close> was
  cleared when the second clip replaced it.
\<close>

definition overlapTrace :: "signal list" where
  "overlapTrace =
     [Opened 0, Frame 0 (Event question), Frame 0 (Event answer),
      Frame 0 (Event followUp), Frame 0 EndSignal, AudioError 0]"

text \<open>
  A clip is started with two events waiting. In \<open>loadFailure\<close> its resource fails to
  load: the browser fires \<open>error\<close> on the element and rejects the promise of \<open>play()\<close>.
  In \<open>naturalEnd\<close> the clip starts and plays to its end.
\<close>

definition loadFailure :: "signal list" where
  "loadFailure =
     [Opened 0, Frame 0 (Event question), Frame 0 (Event hi), Frame 0 (Event hello),
      AudioError 0, PlayRejected 0]"

definition naturalEnd :: "signal list" where
  "naturalEnd =
     [Opened 0, Frame 0 (Event question), Frame 0 (Event hi), Frame 0 (Event hello),
      PlayResolved 0, AudioEnded 0]"




definition noRevision :: revision where
  "noRevision = \<lparr>prevReport = [], currentReport = []\<rparr>"

section \<open>Properties of the tokenizer and of trim\<close>

lemma rest_split:
  assumes "dropWhile (\<lambda>x. x \<noteq> GT) cs \<noteq> []"
  shows "takeWhile (\<lambda>x. x \<noteq> GT) cs @ GT # tl (dropWhile (\<lambda>x. x \<noteq> GT) cs) = cs"
proof -
  have "hd (dropWhile (\<lambda>x. x \<noteq> GT) cs) = GT"
    using hd_dropWhile [OF assms] by simp
  with assms have "dropWhile (\<lambda>x. x \<noteq> GT) cs = GT # tl (dropWhile (\<lambda>x. x \<noteq> GT) cs)"
    by (metis list.collapse)
  then show ?thesis
    by (metis takeWhile_dropWhile_id)
qed

lemma wellTagged_dropText: "wellTagged s \<Longrightarrow> wellTagged (dropWhile (\<lambda>x. x \<noteq> LT) s)"
  by (induction s) auto

lemma tokenizeHTML_lossless: "wellTagged s \<Longrightarrow> concat (tokenizeHTML s) = s"
proof (induction s rule: tokenizeHTML.induct)
  case 1
  then show ?case by simp
next
  case (2 c cs)
  show ?case
  proof (cases "c = LT")
    case True
    with "2.prems" have b: "takeWhile (\<lambda>x. x \<noteq> GT) cs \<noteq> []"
      and r: "dropWhile (\<lambda>x. x \<noteq> GT) cs \<noteq> []"
      and w: "wellTagged (tl (dropWhile (\<lambda>x. x \<noteq> GT) cs))"
      by (simp_all add: Let_def)
    from "2.IH"(1) [OF True refl refl _ w] b r
    have "concat (tokenizeHTML (tl (dropWhile (\<lambda>x. x \<noteq> GT) cs)))
            = tl (dropWhile (\<lambda>x. x \<noteq> GT) cs)"
      by simp
    with True b r rest_split [OF r] show ?thesis
      by (simp add: Let_def)
  next
    case False
    with "2.prems" have "wellTagged (dropWhile (\<lambda>x. x \<noteq> LT) (c # cs))"
      using wellTagged_dropText by blast
    with "2.IH"(3) [OF False] False show ?thesis
      by simp
  qed
qed

text \<open>The tokens never hold more code units than the input.\<close>

lemma tokenizeHTML_length: "length (concat (tokenizeHTML s)) \<le> length s"
proof (induction s rule: tokenizeHTML.induct)
  case 1
  then show ?case by simp
next
  case (2 c cs)
  show ?case
  proof (cases "c = LT")
    case True
    show ?thesis
    proof (cases "takeWhile (\<lambda>x. x \<noteq> GT) cs \<noteq> [] \<and> dropWhile (\<lambda>x. x \<noteq> GT) cs \<noteq> []")
      case t: True
      then have r: "dropWhile (\<lambda>x. x \<noteq> GT) cs \<noteq> []" by simp
      have "length (takeWhile (\<lambda>x. x \<noteq> GT) cs)
              + Suc (length (tl (dropWhile (\<lambda>x. x \<noteq> GT) cs))) = length cs"
        using arg_cong [OF rest_split [OF r], of length] by simp
      moreover have "length (concat (tokenizeHTML (tl (dropWhile (\<lambda>x. x \<noteq> GT) cs))))
              \<le> length (tl (dropWhile (\<lambda>x. x \<noteq> GT) cs))"
        using "2.IH"(1) [OF True refl refl] t by simp
      ultimately show ?thesis using True t by (simp add: Let_def)
    next
      case f: False
      with "2.IH"(2) [OF True refl refl] have "length (concat (tokenizeHTML cs)) \<le> length cs"
        by simp
      with True f show ?thesis by (auto simp: Let_def)
    qed
  next
    case False
    have "length (takeWhile (\<lambda>x. x \<noteq> LT) (c # cs))
            + length (dropWhile (\<lambda>x. x \<noteq> LT) (c # cs)) = length (c # cs)"
      using arg_cong [OF takeWhile_dropWhile_id, of length "\<lambda>x. x \<noteq> LT" "c # cs"] by simp
    with "2.IH"(3) [OF False] False show ?thesis
      by simp
  qed
qed

text \<open>So \<open>wellTagged\<close> is exactly the set of strings the tokenizer gives back whole.\<close>

lemma tokenizeHTML_lossless_only: "concat (tokenizeHTML s) = s \<Longrightarrow> wellTagged s"
proof (induction s rule: tokenizeHTML.induct)
  case 1
  then show ?case by simp
next
  case (2 c cs)
  show ?case
  proof (cases "c = LT")
    case True
    show ?thesis
    proof (cases "takeWhile (\<lambda>x. x \<noteq> GT) cs \<noteq> [] \<and> dropWhile (\<lambda>x. x \<noteq> GT) cs \<noteq> []")
      case t: True
      then have r: "dropWhile (\<lambda>x. x \<noteq> GT) cs \<noteq> []" by simp
      from "2.prems" True t
      have "takeWhile (\<lambda>x. x \<noteq> GT) cs
              @ GT # concat (tokenizeHTML (tl (dropWhile (\<lambda>x. x \<noteq> GT) cs))) = cs"
        by (simp add: Let_def)
      with rest_split [OF r]
      have "concat (tokenizeHTML (tl (dropWhile (\<lambda>x. x \<noteq> GT) cs)))
              = tl (dropWhile (\<lambda>x. x \<noteq> GT) cs)"
        by (metis append_eq_append_conv list.inject)
      with "2.IH"(1) [OF True refl refl] t True show ?thesis
        by (simp add: Let_def)
    next
      case f: False
      with "2.prems" True have "concat (tokenizeHTML cs) = c # cs"
        by (auto simp: Let_def)
      with tokenizeHTML_length [of cs] show ?thesis
        by simp
    qed
  next
    case False
    from "2.prems" False
    have "takeWhile (\<lambda>x. x \<noteq> LT) cs @ concat (tokenizeHTML (dropWhile (\<lambda>x. x \<noteq> LT) cs)) = cs"
      by simp
    then have "concat (tokenizeHTML (dropWhile (\<lambda>x. x \<noteq> LT) cs)) = dropWhile (\<lambda>x. x \<noteq> LT) cs"
      by (metis append_eq_append_conv takeWhile_dropWhile_id)
    with "2.IH"(3) [OF False] False have w: "wellTagged (dropWhile (\<lambda>x. x \<noteq> LT) cs)"
      by simp
    have "wellTagged (dropWhile (\<lambda>x. x \<noteq> LT) xs) \<Longrightarrow> wellTagged xs" for xs
      by (induction xs) auto
    with w False show ?thesis by simp
  qed
qed

lemma trim_pad:
  assumes a: "\<forall>x \<in> set a. isWhiteSpace x" and b: "\<forall>x \<in> set b. isWhiteSpace x"
  shows "trim (a @ t @ b) = trim t"
proof -
  have 1: "dropWhile isWhiteSpace (a @ t @ b) = dropWhile isWhiteSpace (t @ b)"
    by (rule dropWhile_append2) (use a in auto)
  show ?thesis
  proof (cases "\<forall>x \<in> set t. isWhiteSpace x")
    case True
    with b have e: "dropWhile isWhiteSpace (t @ b) = []" "dropWhile isWhiteSpace t = []"
      by (simp_all add: dropWhile_eq_Nil_conv)
    show ?thesis unfolding trim_def 1 e by simp
  next
    case False
    then obtain x where "x \<in> set t" "\<not> isWhiteSpace x" by blast
    then have "dropWhile isWhiteSpace (t @ b) = dropWhile isWhiteSpace t @ b"
      by (simp add: dropWhile_append1)
    moreover have "dropWhile isWhiteSpace (rev b @ ys) = dropWhile isWhiteSpace ys" for ys
      by (rule dropWhile_append2) (use b in auto)
    ultimately show ?thesis using 1 by (simp add: trim_def)
  qed
qed

lemma trim_decompose:
  "\<exists>a b. (\<forall>x \<in> set a. isWhiteSpace x) \<and> (\<forall>x \<in> set b. isWhiteSpace x) \<and> t = a @ trim t @ b"
proof -
  let ?u = "dropWhile isWhiteSpace t"
  let ?a = "takeWhile isWhiteSpace t"
  let ?b = "rev (takeWhile isWhiteSpace (rev ?u))"
  have "rev ?u = takeWhile isWhiteSpace (rev ?u) @ dropWhile isWhiteSpace (rev ?u)"
    by simp
  then have "?u = trim t @ ?b"
    unfolding trim_def by (metis rev_append rev_rev_ident)
  then have "t = ?a @ trim t @ ?b"
    by (metis takeWhile_dropWhile_id)
  moreover have "\<forall>x \<in> set ?a. isWhiteSpace x" "\<forall>x \<in> set ?b. isWhiteSpace x"
    by (auto dest: set_takeWhileD)
  ultimately show ?thesis by blast
qed

lemma trim_idem: "trim (trim t) = trim t"
proof -
  obtain a b where "\<forall>x \<in> set a. isWhiteSpace x" "\<forall>x \<in> set b. isWhiteSpace x"
    and "t = a @ trim t @ b"
    using trim_decompose by blast
  then show ?thesis using trim_pad [of a b "trim t"] by simp
qed

text \<open>What \<open>trim\<close> leaves neither starts nor ends with white space.\<close>

lemma trim_ends:
  assumes "trim t \<noteq> []"
  shows "\<not> isWhiteSpace (hd (trim t))" and "\<not> isWhiteSpace (last (trim t))"
proof -
  let ?u = "dropWhile isWhiteSpace t"
  let ?v = "dropWhile isWhiteSpace (rev ?u)"
  from assms have v: "?v \<noteq> []"
    by (simp add: trim_def)
  have u: "?u \<noteq> []"
  proof
    assume "?u = []"
    then have "?v = []" by (simp only: rev.simps dropWhile.simps)
    with v show False by contradiction
  qed
  have "rev ?u = takeWhile isWhiteSpace (rev ?u) @ ?v"
    by simp
  with v have "last (rev ?u) = last ?v"
    by (metis last_appendR)
  with u have "last ?v = hd ?u"
    by (simp add: last_rev)
  moreover from u have "\<not> isWhiteSpace (hd ?u)"
    by (rule hd_dropWhile)
  moreover from v have "hd (rev ?v) = last ?v"
    by (simp add: hd_rev)
  ultimately show "\<not> isWhiteSpace (hd (trim t))"
    by (simp add: trim_def)
  from v have "\<not> isWhiteSpace (hd ?v)"
    by (rule hd_dropWhile)
  with v show "\<not> isWhiteSpace (last (trim t))"
    by (simp add: trim_def last_rev)
qed

section \<open>Properties of the diff\<close>

lemma diffLoop_unchanged:
  "(\<forall>p \<in> set ps. \<not> added p \<and> \<not> removed p)
     \<Longrightarrow> diffLoop W ps = concat (concat (map pvalue ps))"
  by (induction W ps rule: diffLoop.induct) (simp_all add: wrapPart_def)

lemma editScript_same: "editScript xs xs = map Keep xs"
  by (induction xs) simp_all

lemma runs_Keep:
  "runs (map Keep xs)
     = (if xs = [] then [] else [\<lparr>pvalue = xs, added = False, removed = False\<rparr>])"
  by (induction xs) (simp_all split: list.splits)

lemma diffArraysRef_same:
  "diffArraysRef xs xs
     = (if xs = [] then [] else [\<lparr>pvalue = xs, added = False, removed = False\<rparr>])"
  by (simp add: diffArraysRef_def editScript_same runs_Keep)

text \<open>The reference diff meets the assumption on every token list.\<close>

lemma identityDiff_ref: "identityDiff diffArraysRef ts"
  by (simp add: identityDiff_def diffArraysRef_same)

text \<open>
  C6, as stated: for every string \<open>html\<close>, the diff of \<open>html\<close> with itself is \<open>html\<close>.
  This fails on a string with a \<open><\<close> that opens no tag: the tokenizer skips that code
  unit, so the diff of \<open><p>a <> b</p>\<close> with itself is \<open><p>a > b</p>\<close>.
\<close>

theorem getDiffReport_identity_counterexample:
  "getDiffReport diffArraysRef diffWordsRef (js ''<p>a <> b</p>'') (js ''<p>a <> b</p>'')
     = js ''<p>a > b</p>''
   \<and> getDiffReport diffArraysRef diffWordsRef (js ''<p>a <> b</p>'') (js ''<p>a <> b</p>'')
     \<noteq> js ''<p>a <> b</p>''"
  by (simp add: getDiffReport_def diffArraysRef_def js_def wrapPart_def)

text \<open>
  C6, amended: for every string \<open>html\<close> in which each \<open><\<close> met by the tokenizer opens a
  tag (the empty string included), and a diff package that reports equal token lists as
  unchanged, the diff of \<open>html\<close> with itself is \<open>html\<close>, with no added or removed span.
\<close>

theorem getDiffReport_identity:
  assumes "identityDiff diffArrays (tokenizeHTML html)" and "wellTagged html"
  shows "getDiffReport diffArrays diffWords html html = html"
proof -
  let ?ts = "tokenizeHTML html"
  from assms(1) have "diffLoop diffWords (diffArrays ?ts ?ts) = concat ?ts"
    by (simp add: identityDiff_def diffLoop_unchanged)
  with assms(2) show ?thesis
    by (simp add: getDiffReport_def tokenizeHTML_lossless)
qed

theorem getDiffReport_identity_witness:
  "identityDiff diffArraysRef (tokenizeHTML (js ''<p>A</p>''))
   \<and> wellTagged (js ''<p>A</p>'')
   \<and> getDiffReport diffArraysRef diffWordsRef (js ''<p>A</p>'') (js ''<p>A</p>'')
       = js ''<p>A</p>''"
proof -
  have h1: "identityDiff diffArraysRef (tokenizeHTML (js ''<p>A</p>''))"
    by (rule identityDiff_ref)
  have h2: "wellTagged (js ''<p>A</p>'')"
    by (simp add: js_def)
  show ?thesis
    using h1 h2 getDiffReport_identity [OF h1 h2, of diffWordsRef] by simp
qed

text \<open>
  C7: when the package reports, for the tokens of \<open><p>A</p>\<close> and \<open><p>B</p>\<close>, the run
  \<open><p>\<close> unchanged, \<open>A\<close> removed, \<open>B\<close> added and \<open></p>\<close> unchanged, and for the words
  \<open>A\<close> and \<open>B\<close> a removal and an addition, the result wraps \<open>A\<close> in a span of class
  \<open>remove\<close> and \<open>B\<close> in a span of class \<open>add\<close>, between the two tags left as they are.
\<close>

theorem getDiffReport_paragraph:
  assumes "diffArrays [js ''<p>'', js ''A'', js ''</p>''] [js ''<p>'', js ''B'', js ''</p>'']
             = [\<lparr>pvalue = [js ''<p>''], added = False, removed = False\<rparr>,
                \<lparr>pvalue = [js ''A''], added = False, removed = True\<rparr>,
                \<lparr>pvalue = [js ''B''], added = True, removed = False\<rparr>,
                \<lparr>pvalue = [js ''</p>''], added = False, removed = False\<rparr>]"
    and "diffWords (js ''A'') (js ''B'')
             = [\<lparr>pvalue = js ''A'', added = False, removed = True\<rparr>,
                \<lparr>pvalue = js ''B'', added = True, removed = False\<rparr>]"
  shows "getDiffReport diffArrays diffWords (js ''<p>A</p>'') (js ''<p>B</p>'')
           = js ''<p>'' @ spanRemove (js ''A'') @ spanAdd (js ''B'') @ js ''</p>''"
proof -
  have t1: "tokenizeHTML (js ''<p>A</p>'') = [js ''<p>'', js ''A'', js ''</p>'']"
    and t2: "tokenizeHTML (js ''<p>B</p>'') = [js ''<p>'', js ''B'', js ''</p>'']"
    by (simp_all add: js_def)
  have n: "\<not> isTag (js ''A'')" "\<not> isTag (js ''B'')"
    by (simp_all add: isTag_def js_def)
  show ?thesis
    unfolding getDiffReport_def Let_def t1 t2 assms(1)
    by (simp add: wrapPart_def innerResult_def assms(2) n)
qed

theorem getDiffReport_paragraph_witness:
  \<open>getDiffReport diffArraysRef diffWordsRef (js ''<p>A</p>'') (js ''<p>B</p>'')
     = js ''<p><span class="remove">A</span><span class="add">B</span></p>''\<close>
proof -
  have h1: "diffArraysRef [js ''<p>'', js ''A'', js ''</p>''] [js ''<p>'', js ''B'', js ''</p>'']
             = [\<lparr>pvalue = [js ''<p>''], added = False, removed = False\<rparr>,
                \<lparr>pvalue = [js ''A''], added = False, removed = True\<rparr>,
                \<lparr>pvalue = [js ''B''], added = True, removed = False\<rparr>,
                \<lparr>pvalue = [js ''</p>''], added = False, removed = False\<rparr>]"
    by (simp add: diffArraysRef_def js_def)
  have h2: "diffWordsRef (js ''A'') (js ''B'')
             = [\<lparr>pvalue = js ''A'', added = False, removed = True\<rparr>,
                \<lparr>pvalue = js ''B'', added = True, removed = False\<rparr>]"
    by (simp add: diffWordsRef_def diffArraysRef_def js_def isWhiteSpace_def)
  show ?thesis
    using getDiffReport_paragraph [of diffArraysRef diffWordsRef, OF h1 h2]
    by (simp add: spanRemove_def spanAdd_def js_def)
qed

section \<open>Properties of the report revision tracker\<close>

lemma reportEffect_alt:
  "reportEffect marked msgs r =
     (if reportMessages msgs = [] then r
      else if renderReport marked (msgText (last (reportMessages msgs))) \<noteq> currentReport r
           then r\<lparr>prevReport := currentReport r,
                  currentReport := renderReport marked (msgText (last (reportMessages msgs)))\<rparr>
           else r)"
  by (simp add: reportEffect_def Let_def last_conv_nth)

lemma reportEffect_current:
  "speaker m = js ''report'' \<Longrightarrow>
     currentReport (reportEffect marked (msgs @ [m]) r) = renderReport marked (msgText m)"
  by (simp add: reportEffect_alt reportMessages_def)

lemma reportMessages_none:
  "(\<forall>m \<in> set msgs. speaker m \<noteq> js ''report'') \<Longrightarrow> reportMessages msgs = []"
  by (simp add: reportMessages_def filter_empty_conv)

lemma reportMessages_latest:
  assumes "speaker m = js ''report''" and "\<forall>x \<in> set post. speaker x \<noteq> js ''report''"
  shows "reportMessages (pre @ m # post) \<noteq> []"
    and "last (reportMessages (pre @ m # post)) = m"
proof -
  from assms(2) have "filter (\<lambda>x. speaker x = js ''report'') post = []"
    by (simp add: filter_empty_conv)
  with assms(1) have "reportMessages (pre @ m # post) = reportMessages pre @ [m]"
    by (simp add: reportMessages_def)
  then show "reportMessages (pre @ m # post) \<noteq> []"
    and "last (reportMessages (pre @ m # post)) = m"
    by simp_all
qed

text \<open>
  C8: the pair is driven by the most recent event whose speaker is \<open>report\<close>, whatever
  events follow it. Without such an event the pair stays as it is. With one, when its
  trimmed text renders to HTML other than the stored current value, the old current
  value becomes the previous one and the new HTML the current one; when it renders to
  the stored current value, both fields stay as they are. So the pair changes only in
  the first of these cases.
\<close>

theorem reportEffect_shift:
  "((\<forall>x \<in> set msgs. speaker x \<noteq> js ''report'') \<longrightarrow> reportEffect marked msgs r = r)
   \<and> (speaker m = js ''report'' \<and> (\<forall>x \<in> set post. speaker x \<noteq> js ''report'') \<longrightarrow>
        (marked (trim (msgText m)) \<noteq> currentReport r \<longrightarrow>
           prevReport (reportEffect marked (pre @ m # post) r) = currentReport r
           \<and> currentReport (reportEffect marked (pre @ m # post) r) = marked (trim (msgText m)))
        \<and> (marked (trim (msgText m)) = currentReport r \<longrightarrow>
             reportEffect marked (pre @ m # post) r = r))"
proof (intro conjI impI)
  assume "\<forall>x \<in> set msgs. speaker x \<noteq> js ''report''"
  then show "reportEffect marked msgs r = r"
    by (simp add: reportEffect_alt reportMessages_none)
next
  assume h: "speaker m = js ''report'' \<and> (\<forall>x \<in> set post. speaker x \<noteq> js ''report'')"
  then have l: "reportMessages (pre @ m # post) \<noteq> []"
    "last (reportMessages (pre @ m # post)) = m"
    by (simp_all add: reportMessages_latest)
  {
    assume "marked (trim (msgText m)) \<noteq> currentReport r"
    with l show "prevReport (reportEffect marked (pre @ m # post) r) = currentReport r"
      and "currentReport (reportEffect marked (pre @ m # post) r) = marked (trim (msgText m))"
      by (simp_all add: reportEffect_alt renderReport_def)
  }
  {
    assume "marked (trim (msgText m)) = currentReport r"
    with l show "reportEffect marked (pre @ m # post) r = r"
      by (simp add: reportEffect_alt renderReport_def)
  }
qed

theorem reportEffect_shift_witness:
  "reportEffect asParagraph [hello, hi] noRevision = noRevision
   \<and> prevReport (reportEffect asParagraph ([hello] @ report1 # [hi]) noRevision) = []
   \<and> currentReport (reportEffect asParagraph ([hello] @ report1 # [hi]) noRevision)
       = js ''<p># R1</p>''
   \<and> reportEffect asParagraph ([hello] @ report1 # [hi])
         (reportEffect asParagraph ([hello] @ report1 # [hi]) noRevision)
       = reportEffect asParagraph ([hello] @ report1 # [hi]) noRevision"
proof -
  let ?r = "reportEffect asParagraph ([hello] @ report1 # [hi]) noRevision"
  have n: "\<forall>x \<in> set [hello, hi]. speaker x \<noteq> js ''report''"
    by (simp add: hello_def hi_def mkMessage_def js_def)
  have h: "speaker report1 = js ''report'' \<and> (\<forall>x \<in> set [hi]. speaker x \<noteq> js ''report'')"
    by (simp add: report1_def hi_def mkMessage_def js_def)
  have t: "asParagraph (trim (msgText report1)) = js ''<p># R1</p>''"
    by (simp add: report1_def mkMessage_def js_def asParagraph_def trim_def isWhiteSpace_def)
  have c0: "currentReport noRevision = []" and d: "js ''<p># R1</p>'' \<noteq> []"
    by (simp_all add: noRevision_def js_def)
  from reportEffect_shift [of "[hello, hi]" asParagraph noRevision] n
  have a: "reportEffect asParagraph [hello, hi] noRevision = noRevision"
    by blast
  from reportEffect_shift [of _ asParagraph noRevision report1 "[hi]" "[hello]"] h t c0 d
  have p: "prevReport ?r = []" and c: "currentReport ?r = js ''<p># R1</p>''"
    by simp_all
  from reportEffect_shift [of _ asParagraph ?r report1 "[hi]" "[hello]"] h t c
  have "reportEffect asParagraph ([hello] @ report1 # [hi]) ?r = ?r"
    by simp
  with a p c show ?thesis by blast
qed

text \<open>
  C10: what the tracker hands to the markdown renderer is the text of the report event
  without its leading and trailing white space: the text is white space, then the
  trimmed text, then white space, and the trimmed text neither starts nor ends with
  white space. The current value stored for a report event is the rendering of its
  trimmed text. So a text and its trimmed form render to the same HTML, and when a
  report event is followed by one whose text differs only by white space added in front
  and behind, the second renders to the same HTML and leaves the pair as the first one
  left it.
\<close>

theorem renderReport_trim:
  "renderReport marked t = marked (trim t)
   \<and> (\<exists>a b. (\<forall>x \<in> set a. isWhiteSpace x) \<and> (\<forall>x \<in> set b. isWhiteSpace x)
          \<and> t = a @ trim t @ b)
   \<and> (trim t \<noteq> [] \<longrightarrow> \<not> isWhiteSpace (hd (trim t)) \<and> \<not> isWhiteSpace (last (trim t)))
   \<and> renderReport marked (trim t) = renderReport marked t
   \<and> (speaker m1 = js ''report'' \<longrightarrow>
        currentReport (reportEffect marked (msgs @ [m1]) r) = marked (trim (msgText m1)))
   \<and> ((\<forall>x \<in> set a'. isWhiteSpace x) \<and> (\<forall>x \<in> set b'. isWhiteSpace x)
        \<and> speaker m1 = js ''report'' \<and> speaker m2 = js ''report''
        \<and> msgText m2 = a' @ msgText m1 @ b' \<longrightarrow>
      renderReport marked (msgText m2) = renderReport marked (msgText m1)
      \<and> reportEffect marked (msgs @ [m1, m2]) (reportEffect marked (msgs @ [m1]) r)
          = reportEffect marked (msgs @ [m1]) r)"
proof (intro conjI impI)
  show "renderReport marked t = marked (trim t)"
    by (simp add: renderReport_def)
  show "\<exists>a b. (\<forall>x \<in> set a. isWhiteSpace x) \<and> (\<forall>x \<in> set b. isWhiteSpace x)
          \<and> t = a @ trim t @ b"
    by (rule trim_decompose)
  show "renderReport marked (trim t) = renderReport marked t"
    by (simp add: renderReport_def trim_idem)
next
  assume "trim t \<noteq> []"
  then show "\<not> isWhiteSpace (hd (trim t))" and "\<not> isWhiteSpace (last (trim t))"
    by (rule trim_ends)+
next
  assume "speaker m1 = js ''report''"
  then show "currentReport (reportEffect marked (msgs @ [m1]) r) = marked (trim (msgText m1))"
    by (simp add: reportEffect_current renderReport_def)
next
  assume h: "(\<forall>x \<in> set a'. isWhiteSpace x) \<and> (\<forall>x \<in> set b'. isWhiteSpace x)
        \<and> speaker m1 = js ''report'' \<and> speaker m2 = js ''report''
        \<and> msgText m2 = a' @ msgText m1 @ b'"
  then show e: "renderReport marked (msgText m2) = renderReport marked (msgText m1)"
    by (simp add: renderReport_def trim_pad)
  from h have "currentReport (reportEffect marked (msgs @ [m1]) r)
                 = renderReport marked (msgText m1)"
    by (simp add: reportEffect_current)
  moreover have "reportMessages (msgs @ [m1, m2]) \<noteq> []"
     and "last (reportMessages (msgs @ [m1, m2])) = m2"
    using h by (simp_all add: reportMessages_def)
  ultimately show "reportEffect marked (msgs @ [m1, m2]) (reportEffect marked (msgs @ [m1]) r)
          = reportEffect marked (msgs @ [m1]) r"
    using e by (simp add: reportEffect_alt)
qed

theorem renderReport_trim_witness:
  "msgText report1Padded = [0x20] @ js ''# R1'' @ [0x0A]
   \<and> trim (msgText report1Padded) = js ''# R1''
   \<and> renderReport asParagraph (msgText report1Padded) = js ''<p># R1</p>''
   \<and> currentReport (reportEffect asParagraph ([hello] @ [report1Padded]) noRevision)
       = js ''<p># R1</p>''
   \<and> renderReport asParagraph (msgText report1Padded)
       = renderReport asParagraph (msgText report1)
   \<and> reportEffect asParagraph ([hello] @ [report1, report1Padded])
         (reportEffect asParagraph ([hello] @ [report1]) noRevision)
       = reportEffect asParagraph ([hello] @ [report1]) noRevision"
proof -
  have w: "(\<forall>x \<in> set [0x20]. isWhiteSpace x) \<and> (\<forall>x \<in> set [0x0A]. isWhiteSpace x)"
    by (simp add: isWhiteSpace_def)
  have s: "speaker report1 = js ''report''" "speaker report1Padded = js ''report''"
    by (simp_all add: report1Padded_def report1_def mkMessage_def)
  have t: "msgText report1Padded = [0x20] @ msgText report1 @ [0x0A]"
    and t': "msgText report1Padded = [0x20] @ js ''# R1'' @ [0x0A]"
    by (simp_all add: report1Padded_def report1_def mkMessage_def)
  have tr: "trim (msgText report1Padded) = js ''# R1''"
    by (simp add: report1Padded_def report1_def mkMessage_def js_def trim_def
        isWhiteSpace_def)
  have p: "asParagraph (js ''# R1'') = js ''<p># R1</p>''"
    by (simp add: asParagraph_def js_def)
  note th = renderReport_trim [of asParagraph "msgText report1Padded" report1Padded
      "[hello]" noRevision "[0x20]" "[0x0A]" report1Padded]
  from th have "renderReport asParagraph (msgText report1Padded)
      = asParagraph (trim (msgText report1Padded))"
    by blast
  with tr p have r1: "renderReport asParagraph (msgText report1Padded) = js ''<p># R1</p>''"
    by simp
  from th s(2) have "currentReport (reportEffect asParagraph ([hello] @ [report1Padded])
      noRevision) = asParagraph (trim (msgText report1Padded))"
    by blast
  with tr p have r2: "currentReport (reportEffect asParagraph ([hello] @ [report1Padded])
      noRevision) = js ''<p># R1</p>''"
    by simp
  from renderReport_trim [of asParagraph "[]" report1 "[hello]" noRevision
      "[0x20]" "[0x0A]" report1Padded] w s t
  have "renderReport asParagraph (msgText report1Padded)
          = renderReport asParagraph (msgText report1)
        \<and> reportEffect asParagraph ([hello] @ [report1, report1Padded])
              (reportEffect asParagraph ([hello] @ [report1]) noRevision)
            = reportEffect asParagraph ([hello] @ [report1]) noRevision"
    by blast
  with t' tr r1 r2 show ?thesis by blast
qed

section \<open>Properties of the sequencer\<close>

lemmas browser_defs = clearTimeout_def pause_def clearSrc_def closeSource_def settle_def
  reject_def resolve_def

lemmas handler_defs = audio_onended_def audio_onerror_def play_catch_def
  eventSource_onmessage_def eventSource_onerror_def streamEffect_def streamCleanup_def
  runCleanup_def
  handleToggleWaitTime_def handleToggleAudio_def audioEnabledEffect_def waitTimeEffect_def

lemmas eval_defs = jordan_def mount_def processQueue_def handler_defs browser_defs
  initialState_def Let_def truthy_def js_def mkMessage_def channelClosed_def audioSrc_def

subsection \<open>One call of processQueue\<close>

lemma processQueue_lists:
  "messages (processQueue s) @ messageQueue (processQueue s) = messages s @ messageQueue s"
  by (simp add: processQueue_def browser_defs Let_def split: option.split list.split)

lemma processQueue_sources [simp]:
  "sources (processQueue s) = sources s" "eventSourceRef (processQueue s) = eventSourceRef s"
  "cleanupRegistered (processQueue s) = cleanupRegistered s"
  by (simp_all add: processQueue_def browser_defs Let_def split: option.split list.split)

lemma processQueue_queue_nonempty:
  "messageQueue s \<noteq> [] \<Longrightarrow> isInterviewComplete (processQueue s) = isInterviewComplete s"
  by (auto simp: processQueue_def browser_defs Let_def split: option.split list.split)

lemma processQueue_queue_empty:
  "messageQueue s = [] \<Longrightarrow>
     isInterviewComplete (processQueue s) = channelClosed s \<and> messageQueue (processQueue s) = []"
  by (auto simp: processQueue_def channelClosed_def browser_defs Let_def split: option.split)

lemma processQueue_release:
  "messageQueue s = m # q \<Longrightarrow>
     messages (processQueue s) = messages s @ [m] \<and> messageQueue (processQueue s) = q"
  by (auto simp: processQueue_def browser_defs Let_def split: option.split)



text \<open>
  Each of the two failure callbacks, taken alone, does what the callback for the natural
  end does: it clears the tracker and calls \<open>processQueue\<close>, which releases the next
  event when one is waiting.
\<close>

lemma failure_callbacks_as_onended:
  "audio_onerror s = audio_onended s" "play_catch s = audio_onended s"
  "messageQueue s = m # q \<Longrightarrow>
     messages (audio_onended s) = messages s @ [m] \<and> messageQueue (audio_onended s) = q"
  using processQueue_release [of "s\<lparr>currentPlayingAudio := None\<rparr>" m q]
  by (simp_all add: audio_onerror_def audio_onended_def play_catch_def)

text \<open>
  C5: a playback failure is to behave as the natural end of the clip does. The code
  attaches \<open>onerror\<close> and the \<open>catch\<close> of \<open>play()\<close> to the same element, and neither
  checks whether the other has run. When the resource of a clip fails to load, the
  browser fires \<open>error\<close> and rejects the pending promise, so \<open>processQueue\<close> is called
  twice for that one failure: both waiting events are released at once and only the
  timer of the second is left, where the natural end of the clip releases one event.
\<close>

theorem loadFailure_releases_two:
  "feasible loadFailure jordan
   \<and> messages (run loadFailure jordan) = [question, hi, hello]
   \<and> timers (run loadFailure jordan) = [(2, 3000)]
   \<and> feasible naturalEnd jordan
   \<and> messages (run naturalEnd jordan) = [question, hi]
   \<and> messageQueue (run naturalEnd jordan) = [hello]
   \<and> timers (run naturalEnd jordan) = [(1, 3000)]"
  by (simp add: loadFailure_def naturalEnd_def eval_defs question_def hi_def hello_def)

subsection \<open>Order of display\<close>

lemma step_lists:
  "\<not> isReselect g \<Longrightarrow>
     messages (step g s) @ messageQueue (step g s) = messages s @ messageQueue s @ eventOf g"
proof (cases g)
  case (Frame i f)
  then show ?thesis
    using processQueue_lists [of "closeSource i s"]
      processQueue_lists [of "s\<lparr>messageQueue := messageQueue s @ [m]\<rparr>" for m]
    by (cases f) (simp_all add: handler_defs browser_defs Let_def)
next
  case (TimerFired t)
  then show ?thesis using processQueue_lists [of "clearTimeout t s"]
    by (simp add: browser_defs)
next
  case (AudioEnded a)
  then show ?thesis using processQueue_lists [of "(pause a s)\<lparr>currentPlayingAudio := None\<rparr>"]
    by (simp add: handler_defs browser_defs)
next
  case (AudioError a)
  then show ?thesis using processQueue_lists [of "(settle a s)\<lparr>currentPlayingAudio := None\<rparr>"]
    by (simp add: handler_defs browser_defs)
next
  case (PlayRejected a)
  then show ?thesis using processQueue_lists [of "(reject a s)\<lparr>currentPlayingAudio := None\<rparr>"]
    by (simp add: handler_defs browser_defs)
next
  case ToggleWaitTime
  then show ?thesis
    using processQueue_lists [of "waitTimeEffect (handleToggleWaitTime s)"]
    by (simp add: handler_defs browser_defs)
qed (simp_all add: handler_defs browser_defs Let_def split: option.split)

lemma run_lists:
  "\<forall>g \<in> set tr. \<not> isReselect g \<Longrightarrow>
     messages (run tr s) @ messageQueue (run tr s) = messages s @ messageQueue s @ delivered tr"
proof (induction tr arbitrary: s)
  case Nil
  then show ?case by (simp add: delivered_def)
next
  case (Cons g tr)
  then have "messages (run tr (step g s)) @ messageQueue (run tr (step g s))
               = messages (step g s) @ messageQueue (step g s) @ delivered tr"
    by simp
  also have "\<dots> = (messages s @ messageQueue s @ eventOf g) @ delivered tr"
    using step_lists [of g s] Cons.prems by (metis append.assoc list.set_intros(1))
  finally show ?case by (simp add: delivered_def)
qed

lemma mount_lists: "messages (mount p c) = []" "messageQueue (mount p c) = []"
  by (simp_all add: mount_def processQueue_def handler_defs browser_defs initialState_def
      Let_def)

text \<open>
  C1: along every trace of one session (no new selection in it), the displayed messages
  followed by the queue are the events the stream delivered, in their order; malformed
  frames deliver nothing. So once the queue is empty the displayed messages are exactly
  the delivered events: none dropped, none repeated, none out of place.
\<close>

theorem run_displayed_equals_delivered:
  assumes "feasible tr (mount p c)" and "\<forall>g \<in> set tr. \<not> isReselect g"
  shows "messages (run tr (mount p c)) @ messageQueue (run tr (mount p c)) = delivered tr
    \<and> (messageQueue (run tr (mount p c)) = [] \<longrightarrow> messages (run tr (mount p c)) = delivered tr)"
  using run_lists [OF assms(2), of "mount p c"] by (auto simp: mount_lists)

theorem run_displayed_equals_delivered_witness:
  "feasible scenario jordan
   \<and> messageQueue (run scenario jordan) = []
   \<and> messages (run scenario jordan) = [hello, report1, hi, report2]
   \<and> delivered scenario = [hello, report1, hi, report2]"
proof -
  have f: "feasible scenario (mount (Some patientJordan) (Some (js ''flu'')))"
    by (simp add: scenario_def eval_defs hello_def report1_def hi_def report2_def)
  have n: "\<forall>g \<in> set scenario. \<not> isReselect g"
    by (simp add: scenario_def)
  have q: "messageQueue (run scenario jordan) = []"
    by (simp add: scenario_def eval_defs hello_def report1_def hi_def report2_def)
  have d: "delivered scenario = [hello, report1, hi, report2]"
    by (simp add: scenario_def delivered_def)
  show ?thesis
    using run_displayed_equals_delivered [OF f n] f q d by (simp add: jordan_def)
qed

subsection \<open>What processQueue keeps\<close>

lemma timersTracked_None: "timersTracked s \<Longrightarrow> timeoutIdRef s = None \<Longrightarrow> timers s = []"
  by (cases "timers s") (auto simp: timersTracked_def)

lemma timersTracked_Some:
  "timersTracked s \<Longrightarrow> timeoutIdRef s = Some t
     \<Longrightarrow> filter (\<lambda>p. fst p \<noteq> t) (timers s) = []"
  by (auto simp: timersTracked_def filter_empty_conv)

lemma processQueue_timersTracked: "timersTracked s \<Longrightarrow> timersTracked (processQueue s)"
  by (auto simp: timersTracked_def processQueue_def browser_defs Let_def
      split: option.split list.split)

lemma processQueue_audioTracked: "audioTracked s \<Longrightarrow> audioTracked (processQueue s)"
  by (auto simp: audioTracked_def processQueue_def browser_defs Let_def
      split: option.split list.split)

lemma processQueue_complete:
  assumes "sourcesTracked s" and "completeOnlyDrained s"
  shows "completeOnlyDrained (processQueue s)"
proof (cases "messageQueue s = []")
  case True
  with assms(1) show ?thesis
    using processQueue_queue_empty [OF True]
    by (auto simp: completeOnlyDrained_def sourcesTracked_def channelClosed_def
        split: option.splits)
next
  case False
  with assms(2) show ?thesis
    using processQueue_queue_nonempty [OF False]
    by (simp add: completeOnlyDrained_def)
qed

lemma processQueue_flip:
  assumes "isInterviewComplete (processQueue s)" and "\<not> isInterviewComplete s"
  shows "messageQueue (processQueue s) = [] \<and> channelClosed (processQueue s)"
proof (cases "messageQueue s = []")
  case True
  from processQueue_queue_empty [OF True] assms(1) show ?thesis
    by (simp add: channelClosed_def split: option.splits)
next
  case False
  from processQueue_queue_nonempty [OF False] assms show ?thesis by simp
qed

lemma processQueue_audios_kept:
  assumes "messageQueue s = []
    \<or> \<not> (truthy (audio (hd (messageQueue s))) \<and> isAudioEnabledRef s)"
  shows "audios (processQueue s) = audios s"
    and "currentPlayingAudio (processQueue s) = currentPlayingAudio s"
  using assms
  by (auto simp: processQueue_def clearTimeout_def Let_def split: option.split list.split)

lemma processQueue_audios_started:
  assumes "messageQueue s = m # q" and "truthy (audio m) \<and> isAudioEnabledRef s"
  shows "currentPlayingAudio (processQueue s) = Some (length (audios s))"
    and "length (audios (processQueue s)) = Suc (length (audios s))"
    and "playing (audios (processQueue s) ! length (audios s))"
    and "b < length (audios s) \<Longrightarrow> currentPlayingAudio s \<noteq> Some b
           \<Longrightarrow> audios (processQueue s) ! b = audios s ! b"
    and "b < length (audios s) \<Longrightarrow> currentPlayingAudio s = Some b
           \<Longrightarrow> \<not> playing (audios (processQueue s) ! b)"
  using assms
  by (auto simp: processQueue_def browser_defs Let_def nth_append split: option.split)

text \<open>
  Before it starts a clip, \<open>processQueue\<close> stops the element it tracks: if every playing
  element was the tracked one, the new element is the only one playing afterwards.
\<close>

lemma processQueue_playingTracked:
  assumes "playingTracked s"
  shows "playingTracked (processQueue s)"
proof (cases "messageQueue s = []
    \<or> \<not> (truthy (audio (hd (messageQueue s))) \<and> isAudioEnabledRef s)")
  case True
  with assms show ?thesis
    by (simp add: playingTracked_def processQueue_audios_kept)
next
  case False
  then obtain m q where mq: "messageQueue s = m # q"
    and au: "truthy (audio m) \<and> isAudioEnabledRef s"
    by (cases "messageQueue s") auto
  note st = processQueue_audios_started [OF mq au]
  show ?thesis
    unfolding playingTracked_def
  proof (intro allI impI)
    fix b
    assume b: "b < length (audios (processQueue s))"
      and p: "playing (audios (processQueue s) ! b)"
    show "currentPlayingAudio (processQueue s) = Some b"
    proof (cases "b < length (audios s)")
      case True
      show ?thesis
      proof (cases "currentPlayingAudio s = Some b")
        case True
        with st(5) \<open>b < length (audios s)\<close> p show ?thesis by simp
      next
        case False
        with st(4) \<open>b < length (audios s)\<close> p have "playing (audios s ! b)" by simp
        with assms \<open>b < length (audios s)\<close> False show ?thesis
          by (simp add: playingTracked_def)
      qed
    next
      case False
      with b st(2) have "b = length (audios s)" by simp
      with st(1) show ?thesis by simp
    qed
  qed
qed

subsection \<open>What the cleanup of the stream effect does\<close>

lemma streamCleanup_sources:
  assumes "sourcesTracked s"
  shows "eventSourceRef (streamCleanup s) = None"
    and "length (sources (streamCleanup s)) = length (sources s)"
    and "\<forall>i < length (sources s). sources (streamCleanup s) ! i = CLOSED"
  using assms
  by (auto simp: sourcesTracked_def streamCleanup_def browser_defs Let_def nth_list_update
      split: option.split)

lemma streamCleanup_timers:
  assumes "timersTracked s"
  shows "timeoutIdRef (streamCleanup s) = None" and "timers (streamCleanup s) = []"
  using assms
  by (auto simp: streamCleanup_def browser_defs Let_def timersTracked_None timersTracked_Some
      split: option.split)

lemma streamCleanup_audio:
  "currentPlayingAudio (streamCleanup s) = None"
  "length (audios (streamCleanup s)) = length (audios s)"
  "audioTracked s \<Longrightarrow> currentPlayingAudio s = Some a
     \<Longrightarrow> \<not> playing (audios (streamCleanup s) ! a)"
  by (auto simp: audioTracked_def streamCleanup_def browser_defs Let_def split: option.split)

lemma streamCleanup_rest:
  "messages (streamCleanup s) = messages s"
  "messageQueue (streamCleanup s) = messageQueue s"
  "isInterviewComplete (streamCleanup s) = isInterviewComplete s"
  by (auto simp: streamCleanup_def browser_defs Let_def split: option.split)

lemma streamCleanup_playingTracked:
  assumes "playingTracked s" and "audioTracked s"
  shows "playingTracked (streamCleanup s)"
proof -
  have "\<not> playing (audios (streamCleanup s) ! b)" if "b < length (audios s)" for b
  proof (cases "currentPlayingAudio s = Some b")
    case True
    with assms(2) show ?thesis by (rule streamCleanup_audio(3))
  next
    case False
    with assms(1) that have "\<not> playing (audios s ! b)"
      by (auto simp: playingTracked_def)
    with that assms(2) show ?thesis
      by (cases "currentPlayingAudio s")
         (auto simp: streamCleanup_def browser_defs audioTracked_def Let_def nth_list_update
            split: option.split)
  qed
  then show ?thesis
    by (simp add: playingTracked_def streamCleanup_audio(1,2))
qed

subsection \<open>Tearing the stream effect down and running it again\<close>

lemma runCleanup_sources:
  assumes "sourcesTracked s"
  shows "eventSourceRef (runCleanup s) = None"
    and "length (sources (runCleanup s)) = length (sources s)"
    and "\<forall>i < length (sources s). sources (runCleanup s) ! i = CLOSED"
    and "\<not> cleanupRegistered (runCleanup s)"
proof -
  show "eventSourceRef (runCleanup s) = None"
    using assms streamCleanup_sources(1) [OF assms]
    by (simp add: runCleanup_def sourcesTracked_def)
  show "length (sources (runCleanup s)) = length (sources s)"
    using streamCleanup_sources(2) [OF assms] by (simp add: runCleanup_def)
  show "\<forall>i < length (sources s). sources (runCleanup s) ! i = CLOSED"
    using assms streamCleanup_sources(3) [OF assms]
    by (simp add: runCleanup_def sourcesTracked_def)
  show "\<not> cleanupRegistered (runCleanup s)"
    by (simp add: runCleanup_def)
qed

lemma runCleanup_rest:
  "messages (runCleanup s) = messages s"
  "messageQueue (runCleanup s) = messageQueue s"
  "isInterviewComplete (runCleanup s) = isInterviewComplete s"
  by (simp_all add: runCleanup_def streamCleanup_rest)

lemma runCleanup_timersTracked: "timersTracked s \<Longrightarrow> timersTracked (runCleanup s)"
  using streamCleanup_timers [of s] by (simp add: runCleanup_def timersTracked_def)

lemma runCleanup_audioTracked: "audioTracked s \<Longrightarrow> audioTracked (runCleanup s)"
  using streamCleanup_audio(1,2) [of s] by (simp add: runCleanup_def audioTracked_def)

lemma runCleanup_playingTracked:
  "playingTracked s \<Longrightarrow> audioTracked s \<Longrightarrow> playingTracked (runCleanup s)"
  using streamCleanup_playingTracked [of s]
  by (simp add: runCleanup_def playingTracked_def)

lemma streamEffect_timersTracked: "timersTracked s \<Longrightarrow> timersTracked (streamEffect p c s)"
  by (simp add: timersTracked_def streamEffect_def pause_def Let_def split: option.split)

lemma streamEffect_audioTracked: "audioTracked s \<Longrightarrow> audioTracked (streamEffect p c s)"
  by (simp add: audioTracked_def streamEffect_def pause_def Let_def split: option.split)

lemma streamEffect_playingTracked:
  assumes "playingTracked s" and "audioTracked s"
  shows "playingTracked (streamEffect p c s)"
proof (cases "currentPlayingAudio s")
  case None
  with assms(1) show ?thesis
    by (simp add: playingTracked_def streamEffect_def Let_def)
next
  case (Some a)
  with assms(2) have a: "a < length (audios s)" by (simp add: audioTracked_def)
  from assms(1) Some have "\<forall>b < length (audios s). playing (audios s ! b) \<longrightarrow> b = a"
    by (simp add: playingTracked_def)
  with a have "\<forall>b < length (audios s).
      \<not> playing ((audios s)[a := (audios s ! a)\<lparr>playing := False\<rparr>] ! b)"
    by (auto simp: nth_list_update)
  with assms(1) Some show ?thesis
    by (simp add: playingTracked_def streamEffect_def pause_def Let_def)
qed

lemma streamEffect_sourcesTracked:
  assumes "eventSourceRef s = None" and "\<forall>i < length (sources s). sources s ! i = CLOSED"
    and "\<not> cleanupRegistered s"
  shows "sourcesTracked (streamEffect p c s)"
  using assms
  by (auto simp: sourcesTracked_def streamEffect_def pause_def Let_def nth_append
      split: option.split)

subsection \<open>Invariants along a trace\<close>

lemma sourcesTracked_step:
  "sourcesTracked s \<Longrightarrow> enabled g s \<Longrightarrow> sourcesTracked (step g s)"
proof (cases g)
  case (Reselect p c)
  assume st: "sourcesTracked s"
  have "sourcesTracked (streamEffect p c (runCleanup s))"
    using runCleanup_sources [OF st]
    by (intro streamEffect_sourcesTracked) simp_all
  with Reselect show ?thesis by simp
next
  case Unmount
  assume "sourcesTracked s"
  from runCleanup_sources [OF this] Unmount show ?thesis
    by (auto simp: sourcesTracked_def)
next
  case (Frame i f)
  assume "sourcesTracked s" "enabled g s"
  with Frame show ?thesis
    by (cases f) (auto simp: sourcesTracked_def handler_defs browser_defs Let_def nth_list_update)
qed (auto simp: sourcesTracked_def handler_defs browser_defs Let_def nth_list_update
      split: option.split)

lemma timersTracked_step:
  "timersTracked s \<Longrightarrow> timersTracked (step g s)"
proof (cases g)
  case (Frame i f)
  assume t: "timersTracked s"
  then have "timersTracked (closeSource i s)"
    and "timersTracked (s\<lparr>messageQueue := messageQueue s @ [m]\<rparr>)" for m
    by (simp_all add: timersTracked_def browser_defs)
  with t Frame show ?thesis
    by (cases f) (auto simp: handler_defs Let_def intro: processQueue_timersTracked)
next
  case (TimerFired t)
  assume "timersTracked s"
  then have "timersTracked (clearTimeout t s)"
    by (simp add: timersTracked_def browser_defs)
  with TimerFired show ?thesis by (simp add: processQueue_timersTracked)
next
  case (AudioEnded a)
  assume "timersTracked s"
  then have "timersTracked ((pause a s)\<lparr>currentPlayingAudio := None\<rparr>)"
    by (simp add: timersTracked_def browser_defs)
  with AudioEnded show ?thesis by (simp add: handler_defs processQueue_timersTracked)
next
  case (AudioError a)
  assume "timersTracked s"
  then have "timersTracked ((settle a s)\<lparr>currentPlayingAudio := None\<rparr>)"
    by (simp add: timersTracked_def browser_defs)
  with AudioError show ?thesis by (simp add: handler_defs processQueue_timersTracked)
next
  case (PlayRejected a)
  assume "timersTracked s"
  then have "timersTracked ((reject a s)\<lparr>currentPlayingAudio := None\<rparr>)"
    by (simp add: timersTracked_def browser_defs)
  with PlayRejected show ?thesis by (simp add: handler_defs processQueue_timersTracked)
next
  case ToggleWaitTime
  assume "timersTracked s"
  then have "timersTracked (waitTimeEffect (handleToggleWaitTime s))"
    by (simp add: timersTracked_def handler_defs)
  with ToggleWaitTime show ?thesis by (simp add: processQueue_timersTracked)
next
  case (Reselect p c)
  assume "timersTracked s"
  with Reselect show ?thesis
    by (simp add: streamEffect_timersTracked runCleanup_timersTracked)
next
  case Unmount
  assume "timersTracked s"
  with Unmount show ?thesis
    by (simp add: runCleanup_timersTracked)
qed (auto simp: timersTracked_def handler_defs browser_defs Let_def split: option.split)

lemma audioTracked_step:
  "audioTracked s \<Longrightarrow> audioTracked (step g s)"
proof (cases g)
  case (Frame i f)
  assume t: "audioTracked s"
  then have "audioTracked (closeSource i s)"
    and "audioTracked (s\<lparr>messageQueue := messageQueue s @ [m]\<rparr>)" for m
    by (simp_all add: audioTracked_def browser_defs)
  with t Frame show ?thesis
    by (cases f) (auto simp: handler_defs Let_def intro: processQueue_audioTracked)
next
  case (TimerFired t)
  assume "audioTracked s"
  then have "audioTracked (clearTimeout t s)"
    by (simp add: audioTracked_def browser_defs)
  with TimerFired show ?thesis by (simp add: processQueue_audioTracked)
next
  case (AudioEnded a)
  have "audioTracked ((pause a s)\<lparr>currentPlayingAudio := None\<rparr>)"
    by (simp add: audioTracked_def browser_defs)
  with AudioEnded show ?thesis by (simp add: handler_defs processQueue_audioTracked)
next
  case (AudioError a)
  have "audioTracked ((settle a s)\<lparr>currentPlayingAudio := None\<rparr>)"
    by (simp add: audioTracked_def browser_defs)
  with AudioError show ?thesis by (simp add: handler_defs processQueue_audioTracked)
next
  case (PlayRejected a)
  have "audioTracked ((reject a s)\<lparr>currentPlayingAudio := None\<rparr>)"
    by (simp add: audioTracked_def browser_defs)
  with PlayRejected show ?thesis by (simp add: handler_defs processQueue_audioTracked)
next
  case ToggleWaitTime
  assume "audioTracked s"
  then have "audioTracked (waitTimeEffect (handleToggleWaitTime s))"
    by (simp add: audioTracked_def handler_defs)
  with ToggleWaitTime show ?thesis by (simp add: processQueue_audioTracked)
qed (auto simp: audioTracked_def handler_defs browser_defs Let_def split: option.split)

lemma complete_step:
  assumes "sourcesTracked s" and "completeOnlyDrained s" and "enabled g s"
  shows "completeOnlyDrained (step g s)"
proof (cases g)
  case (Opened i)
  with assms show ?thesis
    by (auto simp: completeOnlyDrained_def)
next
  case (Frame i f)
  with assms have nc: "\<not> isInterviewComplete s"
    by (auto simp: completeOnlyDrained_def)
  show ?thesis
  proof (cases f)
    case Malformed
    with Frame assms show ?thesis by (simp add: handler_defs)
  next
    case EndSignal
    from assms(1,3) Frame nc
    have "sourcesTracked (closeSource i s)" "completeOnlyDrained (closeSource i s)"
      by (auto simp: sourcesTracked_def completeOnlyDrained_def browser_defs nth_list_update)
    with Frame EndSignal show ?thesis
      by (simp add: handler_defs processQueue_complete)
  next
    case (Event m)
    let ?s1 = "s\<lparr>messageQueue := messageQueue s @ [m]\<rparr>"
    from assms(1) nc have "sourcesTracked ?s1" "completeOnlyDrained ?s1"
      by (auto simp: sourcesTracked_def completeOnlyDrained_def)
    with Frame Event show ?thesis
      by (auto simp: handler_defs Let_def processQueue_complete)
  qed
next
  case (TransportError i)
  with assms show ?thesis
    by (auto simp: completeOnlyDrained_def handler_defs browser_defs)
next
  case (TimerFired t)
  from assms have "sourcesTracked (clearTimeout t s)" "completeOnlyDrained (clearTimeout t s)"
    by (auto simp: sourcesTracked_def completeOnlyDrained_def browser_defs)
  with TimerFired show ?thesis by (simp add: processQueue_complete)
next
  case (PlayResolved a)
  with assms show ?thesis
    by (auto simp: completeOnlyDrained_def resolve_def)
next
  case (AudioEnded a)
  let ?s1 = "(pause a s)\<lparr>currentPlayingAudio := None\<rparr>"
  from assms have "sourcesTracked ?s1" "completeOnlyDrained ?s1"
    by (auto simp: sourcesTracked_def completeOnlyDrained_def browser_defs)
  with AudioEnded show ?thesis by (simp add: handler_defs processQueue_complete)
next
  case (AudioError a)
  let ?s1 = "(settle a s)\<lparr>currentPlayingAudio := None\<rparr>"
  from assms have "sourcesTracked ?s1" "completeOnlyDrained ?s1"
    by (auto simp: sourcesTracked_def completeOnlyDrained_def browser_defs)
  with AudioError show ?thesis by (simp add: handler_defs processQueue_complete)
next
  case (PlayRejected a)
  let ?s1 = "(reject a s)\<lparr>currentPlayingAudio := None\<rparr>"
  from assms have "sourcesTracked ?s1" "completeOnlyDrained ?s1"
    by (auto simp: sourcesTracked_def completeOnlyDrained_def browser_defs)
  with PlayRejected show ?thesis by (simp add: handler_defs processQueue_complete)
next
  case ToggleAudio
  with assms show ?thesis
    by (auto simp: completeOnlyDrained_def handler_defs browser_defs Let_def split: option.split)
next
  case ToggleWaitTime
  let ?s1 = "waitTimeEffect (handleToggleWaitTime s)"
  from assms have "sourcesTracked ?s1" "completeOnlyDrained ?s1"
    by (auto simp: sourcesTracked_def completeOnlyDrained_def handler_defs)
  with ToggleWaitTime show ?thesis by (simp add: processQueue_complete)
next
  case (Reselect p c)
  from runCleanup_sources [OF assms(1)] assms(2) Reselect show ?thesis
    by (auto simp: completeOnlyDrained_def runCleanup_rest streamEffect_def browser_defs
        Let_def split: option.split)
next
  case Unmount
  from runCleanup_sources [OF assms(1)] assms(2) Unmount show ?thesis
    by (auto simp: completeOnlyDrained_def runCleanup_rest)
qed

lemma reachableInv_step: "reachableInv s \<Longrightarrow> enabled g s \<Longrightarrow> reachableInv (step g s)"
  by (simp add: reachableInv_def sourcesTracked_step timersTracked_step audioTracked_step
      complete_step)

lemma reachableInv_run: "reachableInv s \<Longrightarrow> feasible tr s \<Longrightarrow> reachableInv (run tr s)"
  by (induction tr arbitrary: s) (simp_all add: reachableInv_step)

lemma reachableInv_mount: "reachableInv (mount p c)"
  by (simp add: reachableInv_def sourcesTracked_def timersTracked_def audioTracked_def
      completeOnlyDrained_def mount_def processQueue_def channelClosed_def handler_defs
      browser_defs initialState_def Let_def)

text \<open>
  The ref that \<open>processQueue\<close> reads agrees with the audio toggle in every state
  reached from mounting, so ``enabled when the event is released'' is the toggle's value.
\<close>

lemma processQueue_audioEnabled:
  "isAudioEnabled (processQueue s) = isAudioEnabled s"
  "isAudioEnabledRef (processQueue s) = isAudioEnabledRef s"
  by (simp_all add: processQueue_def browser_defs Let_def split: option.split list.split)

lemma audioEnabledRef_step:
  assumes "isAudioEnabledRef s = isAudioEnabled s"
  shows "isAudioEnabledRef (step g s) = isAudioEnabled (step g s)"
proof (cases g)
  case (Frame i f)
  with assms show ?thesis
    by (cases f)
       (simp_all add: eventSource_onmessage_def closeSource_def Let_def
          processQueue_audioEnabled)
qed (use assms in \<open>simp_all add: handler_defs browser_defs Let_def processQueue_audioEnabled
       split: option.split\<close>)

lemma audioEnabledRef_run:
  "isAudioEnabledRef s = isAudioEnabled s
     \<Longrightarrow> isAudioEnabledRef (run tr s) = isAudioEnabled (run tr s)"
  by (induction tr arbitrary: s) (simp_all add: audioEnabledRef_step)

lemma audioEnabledRef_synced:
  "isAudioEnabledRef (run tr (mount p c)) = isAudioEnabled (run tr (mount p c))"
  by (rule audioEnabledRef_run)
     (simp add: mount_def processQueue_audioEnabled handler_defs browser_defs
        initialState_def Let_def)

subsection \<open>The completion flag\<close>

lemma step_flip:
  assumes "\<not> isInterviewComplete s" and "isInterviewComplete (step g s)"
  shows "messageQueue (step g s) = [] \<and> channelClosed (step g s)"
proof (cases g)
  case (Frame i f)
  show ?thesis
  proof (cases f)
    case Malformed
    with Frame assms show ?thesis by (simp add: handler_defs)
  next
    case EndSignal
    with Frame assms show ?thesis
      using processQueue_flip [of "closeSource i s"]
      by (simp add: handler_defs browser_defs)
  next
    case (Event m)
    with Frame assms show ?thesis
      using processQueue_flip [of "s\<lparr>messageQueue := messageQueue s @ [m]\<rparr>"]
      by (auto simp: handler_defs Let_def split: if_splits)
  qed
next
  case (TimerFired t)
  with assms show ?thesis
    using processQueue_flip [of "clearTimeout t s"] by (simp add: browser_defs)
next
  case (AudioEnded a)
  with assms show ?thesis
    using processQueue_flip [of "(pause a s)\<lparr>currentPlayingAudio := None\<rparr>"]
    by (simp add: handler_defs browser_defs)
next
  case (AudioError a)
  with assms show ?thesis
    using processQueue_flip [of "(settle a s)\<lparr>currentPlayingAudio := None\<rparr>"]
    by (simp add: handler_defs browser_defs)
next
  case (PlayRejected a)
  with assms show ?thesis
    using processQueue_flip [of "(reject a s)\<lparr>currentPlayingAudio := None\<rparr>"]
    by (simp add: handler_defs browser_defs)
next
  case ToggleWaitTime
  with assms show ?thesis
    using processQueue_flip [of "waitTimeEffect (handleToggleWaitTime s)"]
    by (simp add: handler_defs)
next
  case (Reselect p c)
  with assms show ?thesis
    by (auto simp: streamEffect_def runCleanup_rest browser_defs Let_def
        split: option.splits if_splits)
next
  case Unmount
  with assms show ?thesis by (simp add: runCleanup_rest)
qed (use assms in \<open>auto simp: handler_defs browser_defs Let_def split: option.splits\<close>)

text \<open>
  C2: in every state reached from mounting, the completion flag is false while the queue
  is not empty, whatever the state of the channel; a signal can turn the flag from false
  to true only into a state with an empty queue and the channel seen closed; and a call
  of \<open>processQueue\<close> that finds the queue empty assigns the flag from the closed test
  of the channel, true or false.
\<close>

theorem isInterviewComplete_only_drained:
  assumes "feasible tr (mount p c)" and "s = run tr (mount p c)"
  shows "(messageQueue s \<noteq> [] \<longrightarrow> \<not> isInterviewComplete s)
    \<and> (\<forall>g. enabled g s \<and> \<not> isInterviewComplete s \<and> isInterviewComplete (step g s) \<longrightarrow>
          messageQueue (step g s) = [] \<and> channelClosed (step g s))
    \<and> (messageQueue s = [] \<longrightarrow> isInterviewComplete (processQueue s) = channelClosed s)"
proof -
  from assms have "reachableInv s"
    by (simp add: reachableInv_run reachableInv_mount)
  then have "messageQueue s \<noteq> [] \<longrightarrow> \<not> isInterviewComplete s"
    by (auto simp: reachableInv_def completeOnlyDrained_def)
  then show ?thesis
    using step_flip [of s] processQueue_queue_empty [of s] by blast
qed

theorem isInterviewComplete_only_drained_witness:
  "feasible [Opened 0, Frame 0 (Event hello), Frame 0 (Event hi)] jordan
   \<and> messageQueue (run [Opened 0, Frame 0 (Event hello), Frame 0 (Event hi)] jordan) = [hi]
   \<and> \<not> isInterviewComplete (run [Opened 0, Frame 0 (Event hello), Frame 0 (Event hi)] jordan)
   \<and> enabled (Frame 0 EndSignal) (run [Opened 0] jordan)
   \<and> \<not> isInterviewComplete (run [Opened 0] jordan)
   \<and> isInterviewComplete (step (Frame 0 EndSignal) (run [Opened 0] jordan))
   \<and> messageQueue (step (Frame 0 EndSignal) (run [Opened 0] jordan)) = []
   \<and> channelClosed (step (Frame 0 EndSignal) (run [Opened 0] jordan))
   \<and> messageQueue (run [Opened 0] jordan) = []
   \<and> \<not> isInterviewComplete (processQueue (run [Opened 0] jordan))"
proof -
  let ?t1 = "[Opened 0, Frame 0 (Event hello), Frame 0 (Event hi)]"
  have f1: "feasible ?t1 jordan" and f2: "feasible [Opened 0] jordan"
    by (simp_all add: eval_defs hello_def hi_def)
  have q1: "messageQueue (run ?t1 jordan) = [hi]"
    by (simp add: eval_defs hello_def hi_def)
  have e2: "enabled (Frame 0 EndSignal) (run [Opened 0] jordan)"
    and n2: "\<not> isInterviewComplete (run [Opened 0] jordan)"
    and c2: "isInterviewComplete (step (Frame 0 EndSignal) (run [Opened 0] jordan))"
    and q2: "messageQueue (run [Opened 0] jordan) = []"
    and o2: "\<not> channelClosed (run [Opened 0] jordan)"
    by (simp_all add: eval_defs)
  from q1 have "\<not> isInterviewComplete (run ?t1 jordan)"
    using isInterviewComplete_only_drained [OF f1 [unfolded jordan_def] refl]
    by (simp add: jordan_def)
  moreover
  have "messageQueue (step (Frame 0 EndSignal) (run [Opened 0] jordan)) = []
     \<and> channelClosed (step (Frame 0 EndSignal) (run [Opened 0] jordan))
     \<and> \<not> isInterviewComplete (processQueue (run [Opened 0] jordan))"
    using isInterviewComplete_only_drained [OF f2 [unfolded jordan_def] refl] e2 n2 c2 q2 o2
    unfolding jordan_def by blast
  ultimately show ?thesis
    using f1 q1 e2 n2 c2 q2 by blast
qed

subsection \<open>Teardown\<close>





subsection \<open>Audio elements playing at a time\<close>

lemma untrack_playingTracked:
  assumes "playingTracked s" and "a < length (audios s)" and "playing (audios s ! a)"
  shows "playingTracked ((pause a s)\<lparr>currentPlayingAudio := None\<rparr>)"
    and "playingTracked ((settle a s)\<lparr>currentPlayingAudio := None\<rparr>)"
    and "playingTracked ((reject a s)\<lparr>currentPlayingAudio := None\<rparr>)"
proof -
  from assms have "\<forall>b < length (audios s). playing (audios s ! b) \<longrightarrow> b = a"
    unfolding playingTracked_def by (metis option.inject)
  with assms(2) show "playingTracked ((pause a s)\<lparr>currentPlayingAudio := None\<rparr>)"
    and "playingTracked ((settle a s)\<lparr>currentPlayingAudio := None\<rparr>)"
    and "playingTracked ((reject a s)\<lparr>currentPlayingAudio := None\<rparr>)"
    by (auto simp: playingTracked_def browser_defs nth_list_update)
qed

lemma playingTracked_step:
  assumes "playingTracked s" and "audioTracked s" and "enabled g s" and "fromPlaying g s"
  shows "playingTracked (step g s)"
proof (cases g)
  case (Opened i)
  with assms(1) show ?thesis by (simp add: playingTracked_def)
next
  case (Frame i f)
  show ?thesis
  proof (cases f)
    case Malformed
    with Frame assms(1) show ?thesis by (simp add: eventSource_onmessage_def)
  next
    case EndSignal
    from assms(1) have "playingTracked (closeSource i s)"
      by (simp add: playingTracked_def closeSource_def)
    with Frame EndSignal show ?thesis
      by (simp add: eventSource_onmessage_def processQueue_playingTracked)
  next
    case (Event m)
    from assms(1) have "playingTracked (s\<lparr>messageQueue := messageQueue s @ [m]\<rparr>)"
      by (simp add: playingTracked_def)
    with Frame Event show ?thesis
      by (simp add: eventSource_onmessage_def Let_def processQueue_playingTracked)
  qed
next
  case (TransportError i)
  with assms(1) show ?thesis
    by (simp add: playingTracked_def eventSource_onerror_def closeSource_def)
next
  case (TimerFired t)
  from assms(1) have "playingTracked (clearTimeout t s)"
    by (simp add: playingTracked_def clearTimeout_def)
  with TimerFired show ?thesis by (simp add: processQueue_playingTracked)
next
  case (PlayResolved a)
  with assms(1,3) show ?thesis
    by (auto simp: playingTracked_def resolve_def nth_list_update)
next
  case (AudioEnded a)
  with assms untrack_playingTracked(1) [of s a]
  show ?thesis by (simp add: audio_onended_def processQueue_playingTracked)
next
  case (AudioError a)
  with assms untrack_playingTracked(2) [of s a]
  show ?thesis by (simp add: audio_onerror_def processQueue_playingTracked)
next
  case (PlayRejected a)
  with assms untrack_playingTracked(3) [of s a]
  show ?thesis by (simp add: play_catch_def processQueue_playingTracked)
next
  case ToggleAudio
  show ?thesis
  proof (cases "currentPlayingAudio s")
    case None
    with assms(1) ToggleAudio show ?thesis
      by (simp add: playingTracked_def handleToggleAudio_def audioEnabledEffect_def Let_def)
  next
    case (Some a)
    with assms(2) have a: "a < length (audios s)" by (simp add: audioTracked_def)
    from assms(1) Some have "\<forall>b < length (audios s). playing (audios s ! b) \<longrightarrow> b = a"
      by (simp add: playingTracked_def)
    with a have "playingTracked ((clearSrc a (pause a s))\<lparr>currentPlayingAudio := None\<rparr>)"
      by (auto simp: playingTracked_def clearSrc_def pause_def nth_list_update)
    with assms(1) Some ToggleAudio show ?thesis
      by (simp add: playingTracked_def handleToggleAudio_def audioEnabledEffect_def Let_def)
  qed
next
  case ToggleWaitTime
  from assms(1) have "playingTracked (waitTimeEffect (handleToggleWaitTime s))"
    by (simp add: playingTracked_def waitTimeEffect_def handleToggleWaitTime_def)
  with ToggleWaitTime show ?thesis by (simp add: processQueue_playingTracked)
next
  case (Reselect p c)
  from assms(1,2) Reselect show ?thesis
    by (simp add: streamEffect_playingTracked runCleanup_playingTracked
        runCleanup_audioTracked)
next
  case Unmount
  from assms(1,2) Unmount show ?thesis by (simp add: runCleanup_playingTracked)
qed

lemma playingTracked_run:
  "playingTracked s \<Longrightarrow> reachableInv s \<Longrightarrow> feasible tr s \<Longrightarrow> errorsFromPlaying tr s
     \<Longrightarrow> playingTracked (run tr s)"
proof (induction tr arbitrary: s)
  case Nil
  then show ?case by simp
next
  case (Cons g tr)
  from Cons.prems have "audioTracked s"
    by (simp add: reachableInv_def)
  with Cons.prems have "playingTracked (step g s)" and "reachableInv (step g s)"
    by (simp_all add: playingTracked_step reachableInv_step)
  with Cons show ?case by simp
qed

lemma filter_at_most_one:
  "(\<forall>i < length xs. P (xs ! i) \<longrightarrow> i = k) \<Longrightarrow> length (filter P xs) \<le> 1"
proof (induction xs arbitrary: k)
  case Nil
  then show ?case by simp
next
  case (Cons x xs)
  show ?case
  proof (cases "P x")
    case True
    with Cons.prems have "k = 0" by auto
    with Cons.prems have "\<forall>y \<in> set xs. \<not> P y"
      by (metis Suc_less_eq in_set_conv_nth length_Cons nat.distinct(1) nth_Cons_Suc)
    then have "filter P xs = []" by (simp add: filter_empty_conv)
    with True show ?thesis by simp
  next
    case False
    from Cons.prems have "\<forall>i < length xs. P (xs ! i) \<longrightarrow> i = k - 1"
      by (metis Suc_less_eq diff_Suc_1 length_Cons nth_Cons_Suc)
    from Cons.IH [OF this] False show ?thesis by simp
  qed
qed

text \<open>
  As long as no \<open>error\<close> event of an element with a cleared \<open>src\<close> is delivered, every
  playing element is the tracked one, and so at most one element plays.
\<close>

lemma one_playing_while_tracked:
  assumes "feasible tr (mount p c)" and "errorsFromPlaying tr (mount p c)"
  shows "playingCount (run tr (mount p c)) \<le> 1"
proof -
  have "playingTracked (mount p c)"
    by (simp add: playingTracked_def mount_def processQueue_def handler_defs browser_defs
        initialState_def Let_def)
  with assms have t: "playingTracked (run tr (mount p c))"
    by (simp add: playingTracked_run reachableInv_mount)
  show ?thesis
  proof (cases "currentPlayingAudio (run tr (mount p c))")
    case None
    with t show ?thesis
      using filter_at_most_one [of "audios (run tr (mount p c))" playing 0]
      by (simp add: playingTracked_def playingCount_def)
  next
    case (Some a)
    with t show ?thesis
      using filter_at_most_one [of "audios (run tr (mount p c))" playing a]
      by (simp add: playingTracked_def playingCount_def)
  qed
qed

text \<open>
  C4: at most one audio element plays at a time. The code stops the tracked element
  before it starts a new one, but it leaves the callbacks of the replaced element in
  place, and each of them clears the tracker whatever it points to. When the end signal
  arrives while the first clip plays and two more events with audio are queued,
  \<open>processQueue\<close> replaces the first element by the second and clears the \<open>src\<close> of the
  first; the \<open>error\<close> event this causes on the first element runs its \<open>onerror\<close>
  callback, which clears the tracker and calls \<open>processQueue\<close>, and the third clip starts
  while the second, no longer tracked, is still playing.
\<close>

theorem overlapTrace_two_playing:
  "feasible overlapTrace jordan
   \<and> map playing (audios (run overlapTrace jordan)) = [False, True, True]
   \<and> currentPlayingAudio (run overlapTrace jordan) = Some 2
   \<and> playingCount (run overlapTrace jordan) = 2"
  by (simp add: overlapTrace_def playingCount_def eval_defs question_def answer_def followUp_def)


end
